theory Spec2Isabelle
  imports Main "HOL-Library.AList" "HOL-Library.Multiset"
begin

section \<open>JavaScript strings and the platform\<close>

text \<open>
  A JavaScript string is a sequence of UTF-16 code units; a code unit is modelled by its
  number. String literals of the source are written \<open>lit ''...''\<close>.
\<close>

type_synonym jsstring = "nat list"

abbreviation lit :: "string \<Rightarrow> jsstring" where
  "lit s \<equiv> map (of_char :: char \<Rightarrow> nat) s"

text \<open>
  The scripts call four functions whose result is given by the Unicode tables and the
  collation of the JavaScript engine, not by the repository:
  \<^verbatim>\<open>s.normalize("NFKD")\<close>, \<^verbatim>\<open>s.normalize("NFD")\<close>, \<^verbatim>\<open>s.toLowerCase()\<close>,
  \<^verbatim>\<open>a.localeCompare(b)\<close>, and the regular expression class \<^verbatim>\<open>\p{Diacritic}\<close>
  (as used in \<^verbatim>\<open>s.replace(/\p{Diacritic}+/gu, "")\<close>). They are the fields of a
  record that every function of the model takes as its first argument, so that the
  theorems hold for whatever the engine computes.
\<close>

record platform =
  normalizeNFKD :: "jsstring \<Rightarrow> jsstring"
  normalizeNFD :: "jsstring \<Rightarrow> jsstring"
  removeDiacritic :: "jsstring \<Rightarrow> jsstring"
  toLowerCase :: "jsstring \<Rightarrow> jsstring"
  localeCompare :: "jsstring \<Rightarrow> jsstring \<Rightarrow> int"

text \<open>
  The engine on strings of ASCII code units: both normal forms leave them unchanged, the
  ASCII characters with the property Diacritic are \<^verbatim>\<open>^\<close> and \<^verbatim>\<open>`\<close>, lower-casing
  maps \<^verbatim>\<open>A-Z\<close> to \<^verbatim>\<open>a-z\<close>. The comparison is the one by code units, which is how the
  root collation orders strings over \<^verbatim>\<open>[a-z0-9-]\<close>. This instance serves to evaluate the
  model on concrete ASCII inputs.
\<close>

fun codeUnitCompare :: "jsstring \<Rightarrow> jsstring \<Rightarrow> int" where
  "codeUnitCompare [] [] = 0"
| "codeUnitCompare [] (y # ys) = - 1"
| "codeUnitCompare (x # xs) [] = 1"
| "codeUnitCompare (x # xs) (y # ys) =
     (if x < y then - 1 else if y < x then 1 else codeUnitCompare xs ys)"

definition asciiLower :: "nat \<Rightarrow> nat" where
  "asciiLower c = (if 65 \<le> c \<and> c \<le> 90 then c + 32 else c)"

definition ascii_platform :: platform where
  "ascii_platform =
     \<lparr> normalizeNFKD = (\<lambda>s. s),
       normalizeNFD = (\<lambda>s. s),
       removeDiacritic = filter (\<lambda>c. c \<noteq> 94 \<and> c \<noteq> 96),
       toLowerCase = map asciiLower,
       localeCompare = codeUnitCompare \<rparr>"

text \<open>
  A comparison function is consistent (ECMAScript, Array.prototype.sort) when "at most"
  is total and transitive.
\<close>

definition consistentCompare :: "('a \<Rightarrow> 'a \<Rightarrow> int) \<Rightarrow> bool" where
  "consistentCompare cmp \<longleftrightarrow>
     (\<forall>a b. cmp a b \<le> 0 \<or> cmp b a \<le> 0) \<and>
     (\<forall>a b c. cmp a b \<le> 0 \<longrightarrow> cmp b c \<le> 0 \<longrightarrow> cmp a c \<le> 0)"

subsection \<open>Character classes\<close>

definition isWhiteSpace :: "nat \<Rightarrow> bool" where
  \<comment> \<open>\<^verbatim>\<open>\s\<close>, and what \<^verbatim>\<open>trim()\<close> removes: WhiteSpace and LineTerminator\<close>
  "isWhiteSpace c \<longleftrightarrow>
     (9 \<le> c \<and> c \<le> 13) \<or> c = 32 \<or> c = 160 \<or> c = 5760 \<or> (8192 \<le> c \<and> c \<le> 8202) \<or>
     c = 8232 \<or> c = 8233 \<or> c = 8239 \<or> c = 8287 \<or> c = 12288 \<or> c = 65279"

definition isDigit :: "nat \<Rightarrow> bool" where
  \<comment> \<open>\<^verbatim>\<open>\d\<close>\<close>
  "isDigit c \<longleftrightarrow> 48 \<le> c \<and> c \<le> 57"

definition isSlugChar :: "nat \<Rightarrow> bool" where
  \<comment> \<open>\<^verbatim>\<open>[a-z0-9]\<close>\<close>
  "isSlugChar c \<longleftrightarrow> (97 \<le> c \<and> c \<le> 122) \<or> isDigit c"

definition isWordChar :: "nat \<Rightarrow> bool" where
  \<comment> \<open>\<^verbatim>\<open>\w\<close>, which decides where \<^verbatim>\<open>\b\<close> holds\<close>
  "isWordChar c \<longleftrightarrow> (65 \<le> c \<and> c \<le> 90) \<or> (97 \<le> c \<and> c \<le> 122) \<or> isDigit c \<or> c = 95"

definition isLineTerminator :: "nat \<Rightarrow> bool" where
  \<comment> \<open>what \<^verbatim>\<open>.\<close> does not match\<close>
  "isLineTerminator c \<longleftrightarrow> c = 10 \<or> c = 13 \<or> c = 8232 \<or> c = 8233"

abbreviation hyphen :: nat where "hyphen \<equiv> 45"
abbreviation slash :: nat where "slash \<equiv> 47"
abbreviation dot :: nat where "dot \<equiv> 46"

definition trim :: "jsstring \<Rightarrow> jsstring" where
  "trim s = rev (dropWhile isWhiteSpace (rev (dropWhile isWhiteSpace s)))"

section \<open>The cleanup script\<close>

subsection \<open>stripRankPrefix\<close>

text \<open>
  \<^verbatim>\<open>s.replace(/^\s*\d+\s*\.?\s*/u, "").trim()\<close>. The expression is anchored and not
  global, so it matches at most once, at the start. Its parts are greedy and none can
  take a character the next one needs, so the match is: all leading white space, all
  digits (at least one), all white space, one dot if there is one, all white space.
  \<open>matchRankPrefix\<close> returns what follows the match.
\<close>

definition matchRankPrefix :: "jsstring \<Rightarrow> jsstring option" where
  "matchRankPrefix s =
     (let s1 = dropWhile isWhiteSpace s in
      case s1 of
        [] \<Rightarrow> None
      | d # _ \<Rightarrow>
          if isDigit d then
            let s2 = dropWhile isWhiteSpace (dropWhile isDigit s1);
                s3 = (case s2 of [] \<Rightarrow> s2 | c # r \<Rightarrow> if c = dot then r else s2)
            in Some (dropWhile isWhiteSpace s3)
          else None)"

definition stripRankPrefix :: "jsstring \<Rightarrow> jsstring" where
  "stripRankPrefix s = trim (case matchRankPrefix s of Some r \<Rightarrow> r | None \<Rightarrow> s)"

subsection \<open>toSlug\<close>

text \<open>\<^verbatim>\<open>replace(/[^a-z0-9]+/g, "-")\<close>: every maximal run of other characters becomes one hyphen.\<close>

function hyphenate :: "jsstring \<Rightarrow> jsstring" where
  "hyphenate [] = []"
| "hyphenate (c # cs) =
     (if isSlugChar c then c # hyphenate cs
      else hyphen # hyphenate (dropWhile (\<lambda>d. \<not> isSlugChar d) cs))"
  by pat_completeness auto
termination
  by (relation "measure length") (auto simp: less_Suc_eq_le length_dropWhile_le)

definition trimHyphens :: "jsstring \<Rightarrow> jsstring" where
  \<comment> \<open>\<^verbatim>\<open>replace(/^-+|-+$/g, "")\<close>\<close>
  "trimHyphens s = rev (dropWhile (\<lambda>c. c = hyphen) (rev (dropWhile (\<lambda>c. c = hyphen) s)))"

definition toSlug :: "platform \<Rightarrow> jsstring \<Rightarrow> jsstring" where
  "toSlug P name =
     (let ascii = filter (\<lambda>c. \<not> (768 \<le> c \<and> c \<le> 879)) (normalizeNFKD P name)
      in trimHyphens (hyphenate (toLowerCase P ascii)))"

subsection \<open>Logo paths\<close>

text \<open>
  \<^verbatim>\<open>path.dirname\<close> and \<^verbatim>\<open>path.basename\<close> of Node.js (POSIX). Both ignore trailing
  slashes. \<open>dirname\<close> looks for the last slash before the last component, not at index 0.
\<close>

definition dirname :: "jsstring \<Rightarrow> jsstring" where
  "dirname p =
     (case p of
        [] \<Rightarrow> lit ''.''
      | c0 # body \<Rightarrow>
          (case dropWhile (\<lambda>c. c \<noteq> slash) (dropWhile (\<lambda>c. c = slash) (rev body)) of
             [] \<Rightarrow> if c0 = slash then lit ''/'' else lit ''.''
           | _ # front \<Rightarrow>
               if c0 = slash \<and> front = [] then lit ''//'' else c0 # rev front))"

text \<open>
  \<open>basename p ext\<close>: the last component \<open>comp\<close> of the path, without \<open>ext\<close> when it
  ends with \<open>ext\<close> and is longer. Node compares the extension from the end while it
  scans for the component; when the component is used up before the extension (it is a
  proper suffix of \<open>ext\<close>) the result runs to the end of the path, trailing slashes
  included.
\<close>

definition basename :: "jsstring \<Rightarrow> jsstring \<Rightarrow> jsstring" where
  "basename p ext =
     (let r = dropWhile (\<lambda>c. c = slash) (rev p);
          comp = rev (takeWhile (\<lambda>c. c \<noteq> slash) r);
          trailing = replicate (length p - length r) slash
      in if ext \<noteq> [] \<and> length ext \<le> length p then
           if ext = p then []
           else if length ext \<le> length comp \<and> drop (length comp - length ext) comp = ext then
             (if comp = ext then comp else take (length comp - length ext) comp)
           else if drop (length ext - length comp) ext = comp then comp @ trailing
           else comp
         else comp)"

definition dropRankOfFile :: "jsstring \<Rightarrow> jsstring" where
  \<comment> \<open>\<^verbatim>\<open>replace(/^\d+-/, "")\<close>\<close>
  "dropRankOfFile s =
     (case dropWhile isDigit s of
        [] \<Rightarrow> s
      | c # r \<Rightarrow> if c = hyphen \<and> s \<noteq> [] \<and> isDigit (hd s) then r else s)"

definition cleanLogoPath :: "jsstring \<Rightarrow> jsstring" where
  "cleanLogoPath p =
     (let dir = dirname p;
          file = dropRankOfFile (basename p (lit ''.png''))
      in dir @ lit ''/'' @ file @ lit ''.png'')"

definition slugFromLogo :: "jsstring \<Rightarrow> jsstring" where
  "slugFromLogo p = basename (cleanLogoPath p) (lit ''.png'')"

definition logoOf :: "jsstring \<Rightarrow> jsstring" where
  \<comment> \<open>the template \<^verbatim>\<open>`logos/${slug}.png`\<close>\<close>
  "logoOf slug = lit ''logos/'' @ slug @ lit ''.png''"

subsection \<open>Records of the registry\<close>

text \<open>
  An object of the \<^verbatim>\<open>teams\<close> array or of a region list. Every field may be absent
  in the file that is read; the team objects that the scripts write have no \<^verbatim>\<open>slug\<close>.
\<close>

record team =
  slug :: "jsstring option"
  names :: "jsstring list option"
  logo :: "jsstring option"

type_synonym regions = "(jsstring \<times> team list) list"

text \<open>
  The registry file. \<^verbatim>\<open>updated_at\<close> is the time of writing and is not part of the
  model. \<open>regions\<close> lists the entries of the object in the order of \<^verbatim>\<open>Object.entries\<close>.
\<close>

record registry =
  version :: "int option"
  teams :: "team list option"
  regions :: "regions option"

text \<open>\<^verbatim>\<open>a || b\<close> for a string \<open>a\<close> that may be absent: the empty string is falsy.\<close>

definition orElse :: "jsstring option \<Rightarrow> jsstring \<Rightarrow> jsstring" where
  "orElse a b = (case a of None \<Rightarrow> b | Some s \<Rightarrow> if s \<noteq> [] then s else b)"

subsection \<open>uniq and sort\<close>

text \<open>\<^verbatim>\<open>[...new Set(arr)]\<close>: the first occurrence of each element, in order.\<close>

definition uniq :: "'a list \<Rightarrow> 'a list" where
  "uniq arr = foldl (\<lambda>seen x. if x \<in> set seen then seen else seen @ [x]) [] arr"

text \<open>
  \<^verbatim>\<open>Array.prototype.sort\<close> with a comparison function: a stable sort, here by insertion.
\<close>

fun insertBy :: "('a \<Rightarrow> 'a \<Rightarrow> int) \<Rightarrow> 'a \<Rightarrow> 'a list \<Rightarrow> 'a list" where
  "insertBy cmp x [] = [x]"
| "insertBy cmp x (y # ys) = (if cmp x y \<le> 0 then x # y # ys else y # insertBy cmp x ys)"

definition sortBy :: "('a \<Rightarrow> 'a \<Rightarrow> int) \<Rightarrow> 'a list \<Rightarrow> 'a list" where
  "sortBy cmp xs = foldr (insertBy cmp) xs []"

definition compareKeys :: "platform \<Rightarrow> jsstring \<times> 'v \<Rightarrow> jsstring \<times> 'v \<Rightarrow> int" where
  \<comment> \<open>\<^verbatim>\<open>(a, b) => a[0].localeCompare(b[0])\<close>\<close>
  "compareKeys P a b = localeCompare P (fst a) (fst b)"

subsection \<open>cleanTeamsArray\<close>

text \<open>
  The \<^verbatim>\<open>Map\<close> \<open>bySlug\<close> is an association list in insertion order: \<^verbatim>\<open>set\<close> on a key
  that is present keeps its place, a new key goes to the end (\<open>AList.update\<close>).
  \<open>cleanTeamsStep\<close> is the body of the loop.
\<close>

definition cleanedNames :: "team \<Rightarrow> jsstring list" where
  \<comment> \<open>\<^verbatim>\<open>(t.names ?? []).map(stripRankPrefix).filter(Boolean)\<close>\<close>
  "cleanedNames t =
     filter (\<lambda>n. n \<noteq> []) (map stripRankPrefix (case names t of None \<Rightarrow> [] | Some ns \<Rightarrow> ns))"

definition teamSlug :: "platform \<Rightarrow> team \<Rightarrow> jsstring" where
  "teamSlug P t =
     (let primary = (case cleanedNames t of [] \<Rightarrow> [] | n # _ \<Rightarrow> n)
      in toSlug P (if primary \<noteq> [] then primary
                   else slugFromLogo (orElse (logo t) [])))"

definition cleanTeamsStep :: "platform \<Rightarrow> (jsstring \<times> team) list \<Rightarrow> team \<Rightarrow> (jsstring \<times> team) list" where
  "cleanTeamsStep P bySlug t =
     (let nms = cleanedNames t;
          slg = teamSlug P t;
          entry = (case map_of bySlug slg of
                     Some e \<Rightarrow> e
                   | None \<Rightarrow> \<lparr> slug = None, names = Some [], logo = Some (logoOf slg) \<rparr>);
          entry1 = entry \<lparr> logo := Some (logoOf slg) \<rparr>;
          entry2 = entry1 \<lparr> names := Some (uniq ((case names entry1 of None \<Rightarrow> [] | Some ns \<Rightarrow> ns) @ nms)) \<rparr>
      in AList.update slg entry2 bySlug)"

definition cleanTeamsEntries :: "platform \<Rightarrow> team list \<Rightarrow> (jsstring \<times> team) list" where
  \<comment> \<open>\<^verbatim>\<open>[...bySlug.entries()].sort((a, b) => a[0].localeCompare(b[0]))\<close>\<close>
  "cleanTeamsEntries P ts = sortBy (compareKeys P) (foldl (cleanTeamsStep P) [] ts)"

definition cleanTeamsArray :: "platform \<Rightarrow> team list \<Rightarrow> team list" where
  "cleanTeamsArray P ts = map snd (cleanTeamsEntries P ts)"

subsection \<open>cleanRegions\<close>

definition firstName :: "team \<Rightarrow> jsstring option" where
  \<comment> \<open>\<^verbatim>\<open>item.names && item.names[0]\<close>, \<^verbatim>\<open>t.names?.[0]\<close>: absent when there is no first name\<close>
  "firstName item = (case names item of Some (n # _) \<Rightarrow> Some n | _ \<Rightarrow> None)"

definition regionName :: "team \<Rightarrow> jsstring" where
  \<comment> \<open>\<^verbatim>\<open>stripRankPrefix((item.names && item.names[0]) || item.slug || "")\<close>\<close>
  "regionName item = stripRankPrefix (orElse (firstName item) (orElse (slug item) []))"

fun cleanRegionList :: "platform \<Rightarrow> jsstring set \<Rightarrow> team list \<Rightarrow> team list \<Rightarrow> team list" where
  "cleanRegionList P seen out [] = out"
| "cleanRegionList P seen out (item # rest) =
     (let name = regionName item;
          slg = toSlug P name
      in if slg \<in> seen then cleanRegionList P seen out rest
         else cleanRegionList P (insert slg seen)
                (out @ [\<lparr> slug = Some slg, names = Some [name], logo = Some (logoOf slg) \<rparr>]) rest)"

text \<open>
  \<open>cleanRegions\<close> returns what is not an object as it is (\<open>None\<close>). The assignment
  \<^verbatim>\<open>cleaned[region] = out\<close> adds the key to the new object, except for the key
  \<^verbatim>\<open>__proto__\<close>: there it sets the prototype of \<^verbatim>\<open>cleaned\<close>, and the region is not in
  the output.
\<close>

definition cleanRegions :: "platform \<Rightarrow> regions option \<Rightarrow> regions option" where
  "cleanRegions P rs =
     (case rs of
        None \<Rightarrow> None
      | Some m \<Rightarrow>
          Some (map (\<lambda>(region, list). (region, cleanRegionList P {} [] list))
                  (filter (\<lambda>(region, list). region \<noteq> lit ''__proto__'') m)))"

definition cleanup :: "platform \<Rightarrow> registry \<Rightarrow> registry" where
  \<comment> \<open>the function \<^verbatim>\<open>run\<close> of the cleanup script, from the parsed file to the object written\<close>
  "cleanup P json =
     \<lparr> version = Some (case version json of None \<Rightarrow> 1 | Some v \<Rightarrow> v),
       teams = Some (cleanTeamsArray P (case teams json of None \<Rightarrow> [] | Some ts \<Rightarrow> ts)),
       regions = cleanRegions P (regions json) \<rparr>"

section \<open>The expand script\<close>

text \<open>An element of \<^verbatim>\<open>REGIONS\<close>; its field \<^verbatim>\<open>name\<close> is \<open>rname\<close> here.\<close>

record region =
  code :: jsstring
  rname :: jsstring
  url :: jsstring

definition REGIONS :: "region list" where
  "REGIONS =
     [\<lparr> code = lit ''EU'', rname = lit ''Europe'', url = lit ''https://www.vlr.gg/rankings/europe'' \<rparr>,
      \<lparr> code = lit ''NA'', rname = lit ''North America'', url = lit ''https://www.vlr.gg/rankings/north-america'' \<rparr>,
      \<lparr> code = lit ''BR'', rname = lit ''Brazil'', url = lit ''https://www.vlr.gg/rankings/brazil'' \<rparr>,
      \<lparr> code = lit ''AP'', rname = lit ''Asia Pacific'', url = lit ''https://www.vlr.gg/rankings/asia-pacific'' \<rparr>,
      \<lparr> code = lit ''KR'', rname = lit ''Korea'', url = lit ''https://www.vlr.gg/rankings/korea'' \<rparr>,
      \<lparr> code = lit ''CN'', rname = lit ''China'', url = lit ''https://www.vlr.gg/rankings/china'' \<rparr>,
      \<lparr> code = lit ''JP'', rname = lit ''Japan'', url = lit ''https://www.vlr.gg/rankings/japan'' \<rparr>,
      \<lparr> code = lit ''LAS'', rname = lit ''LA-S'', url = lit ''https://www.vlr.gg/rankings/la-s'' \<rparr>,
      \<lparr> code = lit ''LAN'', rname = lit ''LA-N'', url = lit ''https://www.vlr.gg/rankings/la-n'' \<rparr>,
      \<lparr> code = lit ''OCE'', rname = lit ''Oceania'', url = lit ''https://www.vlr.gg/rankings/oceania'' \<rparr>,
      \<lparr> code = lit ''MENA'', rname = lit ''MENA'', url = lit ''https://www.vlr.gg/rankings/mena'' \<rparr>,
      \<lparr> code = lit ''GC'', rname = lit ''GC'', url = lit ''https://www.vlr.gg/rankings/gc'' \<rparr>,
      \<lparr> code = lit ''CG'', rname = lit ''Collegiate'', url = lit ''https://www.vlr.gg/rankings/collegiate'' \<rparr>]"

subsection \<open>slugify\<close>

definition latinize :: "platform \<Rightarrow> jsstring \<Rightarrow> jsstring" where
  \<comment> \<open>\<^verbatim>\<open>s.normalize("NFD").replace(/\p{Diacritic}+/gu, "")\<close>\<close>
  "latinize P s = removeDiacritic P (normalizeNFD P s)"

definition replaceAmpersand :: "jsstring \<Rightarrow> jsstring" where
  \<comment> \<open>\<^verbatim>\<open>replace(/&/g, "and")\<close>\<close>
  "replaceAmpersand s = concat (map (\<lambda>c. if c = 38 then lit ''and'' else [c]) s)"

definition dropApostrophes :: "jsstring \<Rightarrow> jsstring" where
  \<comment> \<open>\<^verbatim>\<open>replace(/['\<close>U+2019\<^verbatim>\<open>]/g, "")\<close>\<close>
  "dropApostrophes s = filter (\<lambda>c. c \<noteq> 39 \<and> c \<noteq> 8217) s"

function collapseHyphens :: "jsstring \<Rightarrow> jsstring" where
  \<comment> \<open>\<^verbatim>\<open>replace(/-+/g, "-")\<close>\<close>
  "collapseHyphens [] = []"
| "collapseHyphens (c # cs) =
     (if c = hyphen then hyphen # collapseHyphens (dropWhile (\<lambda>d. d = hyphen) cs)
      else c # collapseHyphens cs)"
  by pat_completeness auto
termination
  by (relation "measure length") (auto simp: less_Suc_eq_le length_dropWhile_le)

definition trimOneHyphen :: "jsstring \<Rightarrow> jsstring" where
  \<comment> \<open>\<^verbatim>\<open>replace(/^-|-$/g, "")\<close>: one hyphen at the start, then one at the end of what is left\<close>
  "trimOneHyphen s =
     (let s1 = (case s of [] \<Rightarrow> [] | c # r \<Rightarrow> if c = hyphen then r else s)
      in if s1 \<noteq> [] \<and> last s1 = hyphen then butlast s1 else s1)"

text \<open>
  \<^verbatim>\<open>replace(/\b(esports|esport|gaming|team|club|gc|valorant)\b/g, "")\<close>. The scan goes
  from left to right; \<open>prev\<close> is the character before the current position (none at the
  start). At a position where \<^verbatim>\<open>\b\<close> holds the alternatives are tried in their order,
  each followed by \<^verbatim>\<open>\b\<close>; a match is deleted and the scan goes on behind it.
\<close>

definition stopwords :: "jsstring list" where
  "stopwords = [lit ''esports'', lit ''esport'', lit ''gaming'', lit ''team'', lit ''club'',
                lit ''gc'', lit ''valorant'']"

definition wordBoundary :: "nat option \<Rightarrow> jsstring \<Rightarrow> bool" where
  "wordBoundary prev s \<longleftrightarrow>
     (case prev of None \<Rightarrow> False | Some c \<Rightarrow> isWordChar c) \<noteq>
     (case s of [] \<Rightarrow> False | c # _ \<Rightarrow> isWordChar c)"

definition matchStopword :: "nat option \<Rightarrow> jsstring \<Rightarrow> jsstring option" where
  "matchStopword prev s =
     (if wordBoundary prev s then
        List.find (\<lambda>w. w \<noteq> [] \<and> take (length w) s = w \<and>
                        wordBoundary (Some (last w)) (drop (length w) s)) stopwords
      else None)"

function removeStopwords :: "nat option \<Rightarrow> jsstring \<Rightarrow> jsstring" where
  "removeStopwords prev [] = []"
| "removeStopwords prev (c # cs) =
     (case matchStopword prev (c # cs) of
        Some w \<Rightarrow> removeStopwords (Some (last w)) (drop (length w) (c # cs))
      | None \<Rightarrow> c # removeStopwords (Some c) cs)"
  by pat_completeness auto
termination
proof (relation "measure (\<lambda>(prev, s). length s)")
  show "wf (measure (\<lambda>(prev, s). length s))" by simp
next
  fix prev :: "nat option" and c :: nat and cs w :: jsstring
  assume "matchStopword prev (c # cs) = Some w"
  then have "w \<noteq> []"
    by (auto simp: matchStopword_def find_Some_iff split: if_splits)
  then show "((Some (last w), drop (length w) (c # cs)), (prev, c # cs)) \<in> measure (\<lambda>(prev, s). length s)"
    by (cases w) auto
next
  fix prev :: "nat option" and c :: nat and cs :: jsstring
  show "((Some c, cs), (prev, c # cs)) \<in> measure (\<lambda>(prev, s). length s)" by simp
qed

text \<open>
  The table \<^verbatim>\<open>specials\<close>. No entry of it is empty.
\<close>

definition specials :: "(jsstring \<times> jsstring) list" where
  "specials =
     [(lit ''kru'', lit ''kru''),
      (lit ''leviatan'', lit ''leviatan''),
      (lit ''g2'', lit ''g2-esports''),
      (lit ''100-thieves'', lit ''100-thieves''),
      (lit ''team-liquid'', lit ''team-liquid''),
      (lit ''fnatic'', lit ''fnatic''),
      (lit ''cloud9'', lit ''cloud9'')]"

definition slugifyBase :: "platform \<Rightarrow> jsstring \<Rightarrow> jsstring" where
  \<comment> \<open>the variable \<^verbatim>\<open>n\<close> of \<^verbatim>\<open>slugify\<close> before the lookup in \<^verbatim>\<open>specials\<close>\<close>
  "slugifyBase P name =
     (let n0 = trimOneHyphen (collapseHyphens (hyphenate (dropApostrophes (replaceAmpersand
                 (toLowerCase P (latinize P name))))));
          n1 = removeStopwords None n0
      in trimOneHyphen (collapseHyphens n1))"

text \<open>
  \<^verbatim>\<open>specials[n] || n\<close>. \<^verbatim>\<open>specials\<close> is an object literal, so the lookup also finds what
  the object inherits from \<^verbatim>\<open>Object.prototype\<close>. Here \<open>n\<close> is a string over
  \<^verbatim>\<open>[a-z0-9-]\<close>, and \<^verbatim>\<open>constructor\<close> is the one inherited name of that form (the others
  have a capital or an underscore): for it the lookup gives the function \<^verbatim>\<open>Object\<close>, which
  is truthy, and \<^verbatim>\<open>slugify\<close> returns that function. So the value of \<^verbatim>\<open>slugify\<close>, and
  a key of the map \<^verbatim>\<open>bySlug\<close>, is a string or this function.
\<close>

datatype slugval = Str jsstring | ObjectFunction

definition slugText :: "slugval \<Rightarrow> jsstring" where
  \<comment> \<open>the slug as a string, as the template \<^verbatim>\<open>`logos/${slug}.png`\<close> and an argument of \<^verbatim>\<open>localeCompare\<close> have it\<close>
  "slugText v = (case v of Str s \<Rightarrow> s | ObjectFunction \<Rightarrow> lit ''function Object() { [native code] }'')"

definition jsonSlug :: "slugval \<Rightarrow> jsstring option" where
  \<comment> \<open>the property \<^verbatim>\<open>slug\<close> as \<^verbatim>\<open>JSON.stringify\<close> writes it: a function is left out\<close>
  "jsonSlug v = (case v of Str s \<Rightarrow> Some s | ObjectFunction \<Rightarrow> None)"

definition specialsOr :: "jsstring \<Rightarrow> slugval" where
  "specialsOr n =
     (case map_of specials n of
        Some v \<Rightarrow> Str v
      | None \<Rightarrow> if n = lit ''constructor'' then ObjectFunction else Str n)"

definition slugify :: "platform \<Rightarrow> jsstring \<Rightarrow> slugval" where
  "slugify P name = specialsOr (slugifyBase P name)"

subsection \<open>buildSlugIndex\<close>

text \<open>
  \<^verbatim>\<open>t.logo?.match(/logos\/(.+?)\.(?:png|webp|jpg)$/)?.[1]\<close>. The match starts at the
  first occurrence of \<^verbatim>\<open>logos/\<close> behind which the expression matches. Since
  \<^verbatim>\<open>$\<close> is the end of the string, the group is what lies between \<^verbatim>\<open>logos/\<close> and
  the final extension; it is not empty and has no line terminator.
\<close>

definition logoExtensions :: "jsstring list" where
  "logoExtensions = [lit ''.png'', lit ''.webp'', lit ''.jpg'']"

definition matchLogoAt :: "jsstring \<Rightarrow> jsstring option" where
  "matchLogoAt s =
     (if take 6 s = lit ''logos/'' then
        let r = drop 6 s in
        map_option (\<lambda>e. take (length r - length e) r)
          (List.find (\<lambda>e. length e < length r \<and> drop (length r - length e) r = e \<and>
                     \<not> list_ex isLineTerminator (take (length r - length e) r)) logoExtensions)
      else None)"

fun logoMatch :: "jsstring \<Rightarrow> jsstring option" where
  "logoMatch [] = None"
| "logoMatch (c # cs) =
     (case matchLogoAt (c # cs) of Some g \<Rightarrow> Some g | None \<Rightarrow> logoMatch cs)"

definition indexKey :: "platform \<Rightarrow> team \<Rightarrow> slugval" where
  \<comment> \<open>\<^verbatim>\<open>t.logo?.match(...)?.[1] || t.logo || t.slug || slugify(t.names?.[0] || "")\<close>\<close>
  "indexKey P t =
     (let s = orElse (case logo t of None \<Rightarrow> None | Some l \<Rightarrow> logoMatch l)
                (orElse (logo t) (orElse (slug t) []))
      in if s \<noteq> [] then Str s else slugify P (orElse (firstName t) []))"

definition buildSlugStep :: "platform \<Rightarrow> (slugval \<times> team) list \<Rightarrow> team \<Rightarrow> (slugval \<times> team) list" where
  \<comment> \<open>\<^verbatim>\<open>if (!bySlug.has(s)) bySlug.set(s, t)\<close>\<close>
  "buildSlugStep P bySlug t =
     (let s = indexKey P t
      in if map_of bySlug s = None then bySlug @ [(s, t)] else bySlug)"

definition buildSlugIndex :: "platform \<Rightarrow> team list \<Rightarrow> (slugval \<times> team) list" where
  "buildSlugIndex P ts = foldl (buildSlugStep P) [] ts"

subsection \<open>mergeTeam\<close>

text \<open>
  \<open>mergeTeam\<close> changes the map and returns the entry: the model returns both. The
  entry of a hit keeps the fields it had besides \<^verbatim>\<open>names\<close> and \<^verbatim>\<open>logo\<close>.
\<close>

definition mergeTeam :: "platform \<Rightarrow> (slugval \<times> team) list \<Rightarrow> jsstring \<Rightarrow> (slugval \<times> team) list \<times> team" where
  "mergeTeam P bySlug name =
     (let slg = slugify P name in
      case map_of bySlug slg of
        Some existing \<Rightarrow>
          let set0 = uniq ((case names existing of None \<Rightarrow> [] | Some ns \<Rightarrow> ns) @ [name]);
              existing1 = existing \<lparr> names := Some (sortBy (localeCompare P) set0) \<rparr>;
              existing2 = existing1 \<lparr> logo := Some (logoOf (slugText slg)) \<rparr>
          in (AList.update slg existing2 bySlug, existing2)
      | None \<Rightarrow>
          let entry = \<lparr> slug = None, names = Some [name], logo = Some (logoOf (slugText slg)) \<rparr>
          in (AList.update slg entry bySlug, entry))"

subsection \<open>The main function\<close>

text \<open>
  \<^verbatim>\<open>getTop30\<close> fetches and parses a ranking page: its result is an input of the model,
  the names of the page of a URL, or nothing when it throws. \<open>regionStep\<close> is the body of
  the loop over \<^verbatim>\<open>REGIONS\<close>, on the map \<open>bySlug\<close> and the object \<^verbatim>\<open>db.regions\<close>. The
  registry of the model is the document that is written: the \<^verbatim>\<open>slug\<close> of a region entry
  is absent from it when it is the function.
\<close>

definition mergeName :: "platform \<Rightarrow> (slugval \<times> team) list \<times> team list \<Rightarrow> jsstring \<Rightarrow> (slugval \<times> team) list \<times> team list" where
  "mergeName P st nm =
     (let (bySlug, regionList) = st;
          (bySlug1, entry) = mergeTeam P bySlug nm;
          slg = slugify P nm
      in (bySlug1, regionList @
            [\<lparr> slug = jsonSlug slg, names = names entry, logo = Some (logoOf (slugText slg)) \<rparr>]))"

definition regionStep :: "platform \<Rightarrow> (jsstring \<Rightarrow> jsstring list option) \<Rightarrow> (slugval \<times> team) list \<times> regions \<Rightarrow> region \<Rightarrow> (slugval \<times> team) list \<times> regions" where
  "regionStep P getTop30 st rg =
     (let (bySlug, rs) = st in
      case getTop30 (url rg) of
        Some nms \<Rightarrow>
          let (bySlug1, regionList) = foldl (mergeName P) (bySlug, []) nms
          in (bySlug1, AList.update (code rg) regionList rs)
      | None \<Rightarrow>
          (bySlug, if map_of rs (code rg) = None then AList.update (code rg) [] rs else rs))"

text \<open>
  The rebuild of \<^verbatim>\<open>db.teams\<close>: the entries of the map are sorted by
  \<^verbatim>\<open>a[0].localeCompare(b[0])\<close> and written with the logo path of their key.
  \<open>rebuildTeams\<close> is the rebuild for keys that are read as strings.
\<close>

definition rebuildTeams :: "platform \<Rightarrow> (jsstring \<times> team) list \<Rightarrow> team list" where
  "rebuildTeams P bySlug =
     map (\<lambda>(slg, entry). \<lparr> slug = None, names = names entry, logo = Some (logoOf slg) \<rparr>)
       (sortBy (compareKeys P) bySlug)"

definition expandLoop :: "platform \<Rightarrow> (jsstring \<Rightarrow> jsstring list option) \<Rightarrow> registry \<Rightarrow> (slugval \<times> team) list \<times> regions" where
  \<comment> \<open>up to the end of the loop: the final \<open>bySlug\<close> and \<^verbatim>\<open>db.regions\<close>\<close>
  "expandLoop P getTop30 db =
     (let ts = (case teams db of None \<Rightarrow> [] | Some x \<Rightarrow> x);
          bySlug = buildSlugIndex P ts;
          rs = (case regions db of None \<Rightarrow> [] | Some x \<Rightarrow> x)
      in foldl (regionStep P getTop30) (bySlug, rs) REGIONS)"

text \<open>
  The comparison \<^verbatim>\<open>a[0].localeCompare(b[0])\<close> throws a TypeError when \<^verbatim>\<open>a[0]\<close> is the
  function, which has no method \<^verbatim>\<open>localeCompare\<close>; as \<^verbatim>\<open>b[0]\<close> the function is read
  as a string. The sort of V8 (Node.js) compares a later element, as \<^verbatim>\<open>a\<close>, with an
  earlier one, as \<^verbatim>\<open>b\<close>: every element of the array but the first is \<^verbatim>\<open>a\<close> in some
  call, the first is in none. So the sort throws when the function is a key of the map
  other than the first; the script ends there and writes nothing. Otherwise every key is
  read as a string, by the sort and by the template of the logo path.
\<close>

datatype error = TypeError

definition sortThrows :: "(slugval \<times> team) list \<Rightarrow> bool" where
  "sortThrows bySlug \<longleftrightarrow> ObjectFunction \<in> set (map fst (tl bySlug))"

definition textKeys :: "(slugval \<times> team) list \<Rightarrow> (jsstring \<times> team) list" where
  "textKeys bySlug = map (\<lambda>(k, entry). (slugText k, entry)) bySlug"

definition expand :: "platform \<Rightarrow> (jsstring \<Rightarrow> jsstring list option) \<Rightarrow> registry \<Rightarrow> error + registry" where
  "expand P getTop30 db =
     (let (bySlug1, rs1) = expandLoop P getTop30 db
      in if sortThrows bySlug1 then Inl TypeError
         else Inr (db \<lparr> teams := Some (rebuildTeams P (textKeys bySlug1)), regions := Some rs1 \<rparr>))"

section \<open>Notions used in the statements\<close>

text \<open>
  What the theorems assume of the engine: \<^verbatim>\<open>localeCompare\<close> is a consistent comparison,
  and normalising or lower-casing the empty string gives the empty string.
\<close>

definition regularPlatform :: "platform \<Rightarrow> bool" where
  "regularPlatform P \<longleftrightarrow>
     consistentCompare (localeCompare P) \<and> normalizeNFKD P [] = [] \<and> toLowerCase P [] = []"

text \<open>An entry as \<open>cleanTeamsArray\<close> makes it for the slug \<open>k\<close>.\<close>

definition madeEntry :: "jsstring \<Rightarrow> team \<Rightarrow> bool" where
  "madeEntry k e \<longleftrightarrow>
     (\<exists>N. e = \<lparr> slug = None, names = Some N, logo = Some (logoOf k) \<rparr> \<and> distinct N)"

text \<open>
  A team is settled when cleaning its cleaned form again would change nothing: no cleaned
  name of it has a rank prefix left for \<open>stripRankPrefix\<close>, and, when it has no cleaned
  name at all, its slug comes back from the logo path that the cleanup writes for it.
  Likewise for the item of a region list.
\<close>

definition settledTeam :: "platform \<Rightarrow> team \<Rightarrow> bool" where
  "settledTeam P t \<longleftrightarrow>
     (\<forall>n \<in> set (cleanedNames t). stripRankPrefix n = n) \<and>
     (cleanedNames t = [] \<longrightarrow> toSlug P (slugFromLogo (logoOf (teamSlug P t))) = teamSlug P t)"

definition settledItem :: "team \<Rightarrow> bool" where
  "settledItem item \<longleftrightarrow> stripRankPrefix (regionName item) = regionName item"

definition settledRegistry :: "platform \<Rightarrow> registry \<Rightarrow> bool" where
  "settledRegistry P json \<longleftrightarrow>
     (\<forall>t \<in> set (case teams json of None \<Rightarrow> [] | Some ts \<Rightarrow> ts). settledTeam P t) \<and>
     (\<forall>(region, list) \<in> set (case regions json of None \<Rightarrow> [] | Some m \<Rightarrow> m).
        \<forall>item \<in> set list. settledItem item)"

text \<open>An entry that cleaning maps to itself, under the slug \<open>k\<close>.\<close>

definition fixedEntry :: "platform \<Rightarrow> jsstring \<Rightarrow> team \<Rightarrow> bool" where
  "fixedEntry P k e \<longleftrightarrow>
     (\<exists>N. e = \<lparr> slug = None, names = Some N, logo = Some (logoOf k) \<rparr> \<and> distinct N \<and>
          (\<forall>n \<in> set N. n \<noteq> [] \<and> stripRankPrefix n = n) \<and>
          (case N of [] \<Rightarrow> toSlug P (slugFromLogo (logoOf k)) = k | n # _ \<Rightarrow> toSlug P n = k))"

definition regionEntry :: "platform \<Rightarrow> jsstring \<Rightarrow> team" where
  \<comment> \<open>the object that \<open>cleanRegions\<close> pushes for the cleaned name \<open>n\<close>\<close>
  "regionEntry P n = \<lparr> slug = Some (toSlug P n), names = Some [n], logo = Some (logoOf (toSlug P n)) \<rparr>"

text \<open>The entry that the loop of a region pushes for the fetched name \<open>nm\<close>.\<close>

definition freshEntry :: "platform \<Rightarrow> jsstring \<Rightarrow> team \<Rightarrow> bool" where
  "freshEntry P nm e \<longleftrightarrow>
     slug e = jsonSlug (slugify P nm) \<and> logo e = Some (logoOf (slugText (slugify P nm))) \<and>
     (\<exists>ns. names e = Some ns \<and> nm \<in> set ns)"

text \<open>All the names that the fetches of the regions gave.\<close>

definition fetchedNames :: "(jsstring \<Rightarrow> jsstring list option) \<Rightarrow> region list \<Rightarrow> jsstring list" where
  "fetchedNames getTop30 rgs =
     concat (map (\<lambda>rg. case getTop30 (url rg) of None \<Rightarrow> [] | Some nms \<Rightarrow> nms) rgs)"

text \<open>What the loop leaves for a region, given the regions object before it.\<close>

definition regionOutcome :: "platform \<Rightarrow> (jsstring \<Rightarrow> jsstring list option) \<Rightarrow> regions \<Rightarrow> region \<Rightarrow> team list \<Rightarrow> bool" where
  "regionOutcome P getTop30 rs rg v \<longleftrightarrow>
     (case getTop30 (url rg) of
        None \<Rightarrow> v = (case map_of rs (code rg) of None \<Rightarrow> [] | Some old \<Rightarrow> old)
      | Some nms \<Rightarrow> list_all2 (freshEntry P) nms v)"

definition slugString :: "jsstring \<Rightarrow> bool" where
  \<comment> \<open>a string over \<^verbatim>\<open>[a-z0-9-]\<close>\<close>
  "slugString s \<longleftrightarrow> (\<forall>c \<in> set s. isSlugChar c \<or> c = hyphen)"

text \<open>
  \<^verbatim>\<open>localeCompare\<close> orders strings over \<^verbatim>\<open>[a-z0-9-]\<close> as their code units do.
\<close>

definition codeUnitOrderOnSlugs :: "platform \<Rightarrow> bool" where
  "codeUnitOrderOnSlugs P \<longleftrightarrow>
     (\<forall>a b. slugString a \<longrightarrow> slugString b \<longrightarrow> localeCompare P a b \<le> 0 \<longrightarrow> codeUnitCompare a b \<le> 0)"

text \<open>No two hyphens in a row.\<close>

fun singleHyphens :: "jsstring \<Rightarrow> bool" where
  "singleHyphens [] = True"
| "singleHyphens [c] = True"
| "singleHyphens (c # d # r) = (\<not> (c = hyphen \<and> d = hyphen) \<and> singleHyphens (d # r))"

text \<open>
  The expression of the stop words matches nowhere in \<open>s\<close>, where \<open>prev\<close> is the
  character before \<open>s\<close>.
\<close>

fun stopwordFree :: "nat option \<Rightarrow> jsstring \<Rightarrow> bool" where
  "stopwordFree prev [] = True"
| "stopwordFree prev (c # cs) = (matchStopword prev (c # cs) = None \<and> stopwordFree (Some c) cs)"

text \<open>The name as \<open>slugify\<close> has it after \<^verbatim>\<open>latinize(name).toLowerCase()\<close>.\<close>

definition lowered :: "platform \<Rightarrow> jsstring \<Rightarrow> jsstring" where
  "lowered P name = toLowerCase P (latinize P name)"

section \<open>Example inputs\<close>

definition exFnatic :: team where
  "exFnatic = \<lparr> slug = None, names = Some [lit ''2. Fnatic'', lit ''FNATIC''],
                logo = Some (lit ''logos/1-fnatic.png'') \<rparr>"

definition exKru :: team where
  "exKru = \<lparr> slug = None, names = None, logo = Some (lit ''logos/3-kru.png'') \<rparr>"

definition exThieves :: team where
  "exThieves = \<lparr> slug = None, names = Some [lit ''1 100 Thieves''], logo = Some (lit ''logos/x.png'') \<rparr>"

definition exThievesLogo :: team where
  "exThievesLogo = \<lparr> slug = None, names = None, logo = Some (lit ''logos/3-100-thieves.png'') \<rparr>"

definition exItem :: team where
  "exItem = \<lparr> slug = Some (lit ''fnatic''), names = Some [lit ''1 Fnatic'', lit ''FNC''], logo = None \<rparr>"

definition exRegistry :: registry where
  "exRegistry = \<lparr> version = Some 1, teams = Some [exFnatic, exKru],
                   regions = Some [(lit ''EU'', [exItem])] \<rparr>"

definition exThievesRegistry :: registry where
  "exThievesRegistry = \<lparr> version = Some 1, teams = Some [exThieves], regions = None \<rparr>"

definition exBang :: team where
  "exBang = \<lparr> slug = None, names = Some [lit ''!!!''], logo = None \<rparr>"

definition exBlank :: team where
  "exBlank = \<lparr> slug = None, names = Some [lit '' 3. ''], logo = None \<rparr>"

definition exStale :: team where
  "exStale = \<lparr> slug = Some (lit ''t1''), names = Some [lit ''T1''], logo = Some (lit ''logos/1-t1.png'') \<rparr>"

definition exDb :: registry where
  "exDb = \<lparr> version = Some 1, teams = Some [exFnatic], regions = Some [(lit ''KR'', [exStale])] \<rparr>"

definition regionEU :: region where
  "regionEU = \<lparr> code = lit ''EU'', rname = lit ''Europe'', url = lit ''https://www.vlr.gg/rankings/europe'' \<rparr>"

definition regionKR :: region where
  "regionKR = \<lparr> code = lit ''KR'', rname = lit ''Korea'', url = lit ''https://www.vlr.gg/rankings/korea'' \<rparr>"

definition noFetch :: "jsstring \<Rightarrow> jsstring list option" where
  \<comment> \<open>every fetch fails\<close>
  "noFetch u = None"

definition exFetch :: "jsstring \<Rightarrow> jsstring list option" where
  \<comment> \<open>the fetch succeeds for Europe only\<close>
  "exFetch u = (if u = url regionEU then Some [lit ''Fnatic'', lit ''G2''] else None)"

definition exFnaticWebp :: team where
  "exFnaticWebp = \<lparr> slug = None, names = Some [lit ''FNC''], logo = Some (lit ''logos/1-fnatic.webp'') \<rparr>"

text \<open>A team named \<^verbatim>\<open>Constructor\<close>, and a team whose logo has the stem that the function is written as.\<close>

definition exCtor :: team where
  "exCtor = \<lparr> slug = None, names = Some [lit ''Constructor''], logo = None \<rparr>"

definition exCtorLogo :: team where
  "exCtorLogo = \<lparr> slug = None, names = None,
                   logo = Some (lit ''logos/function Object() { [native code] }.png'') \<rparr>"

definition exCtorDb :: registry where
  "exCtorDb = \<lparr> version = Some 1, teams = Some [exCtor, exCtorLogo], regions = None \<rparr>"

definition exCtorFetch :: "jsstring \<Rightarrow> jsstring list option" where
  \<comment> \<open>the fetch succeeds for Europe only, with a team named Constructor\<close>
  "exCtorFetch u = (if u = url regionEU then Some [lit ''Fnatic'', lit ''Constructor''] else None)"

definition emptyRegions :: regions where
  \<comment> \<open>every configured region with an empty list\<close>
  "emptyRegions = map (\<lambda>rg. (code rg, [])) REGIONS"

section \<open>Properties of uniq and sort\<close>

lemma uniq_foldl_prefix:
  "\<exists>zs. foldl (\<lambda>seen x. if x \<in> set seen then seen else seen @ [x]) acc xs = acc @ zs"
proof (induction xs arbitrary: acc)
  case Nil
  then show ?case by simp
next
  case (Cons x xs)
  show ?case
  proof (cases "x \<in> set acc")
    case True
    then show ?thesis using Cons [of acc] by simp
  next
    case False
    from Cons [of "acc @ [x]"] obtain zs where
      "foldl (\<lambda>seen x. if x \<in> set seen then seen else seen @ [x]) (acc @ [x]) xs = (acc @ [x]) @ zs"
      by blast
    then show ?thesis using False by simp
  qed
qed

lemma uniq_foldl_set:
  "set (foldl (\<lambda>seen x. if x \<in> set seen then seen else seen @ [x]) acc xs) = set acc \<union> set xs"
  by (induction xs arbitrary: acc) auto

lemma uniq_foldl_distinct:
  "distinct acc \<Longrightarrow> distinct (foldl (\<lambda>seen x. if x \<in> set seen then seen else seen @ [x]) acc xs)"
  by (induction xs arbitrary: acc) auto

lemma uniq_foldl_id:
  "distinct (acc @ xs) \<Longrightarrow> foldl (\<lambda>seen x. if x \<in> set seen then seen else seen @ [x]) acc xs = acc @ xs"
  by (induction xs arbitrary: acc) auto

lemma set_uniq: "set (uniq xs) = set xs"
  by (simp add: uniq_def uniq_foldl_set)

lemma distinct_uniq: "distinct (uniq xs)"
  by (simp add: uniq_def uniq_foldl_distinct)

lemma uniq_distinct_id: "distinct xs \<Longrightarrow> uniq xs = xs"
  using uniq_foldl_id [of "[]" xs] by (simp add: uniq_def)

lemma uniq_append_prefix: "distinct xs \<Longrightarrow> \<exists>zs. uniq (xs @ ys) = xs @ zs"
  using uniq_foldl_id [of "[]" xs] uniq_foldl_prefix [of xs ys] by (simp add: uniq_def)

lemma uniq_Cons_prefix: "\<exists>zs. uniq (x # xs) = x # zs"
  using uniq_foldl_prefix [of "[x]" xs] by (simp add: uniq_def)

lemma mset_insertBy: "mset (insertBy cmp x ys) = add_mset x (mset ys)"
  by (induction ys) auto

lemma mset_sortBy: "mset (sortBy cmp xs) = mset xs"
  by (induction xs) (auto simp: sortBy_def mset_insertBy)

lemma set_sortBy: "set (sortBy cmp xs) = set xs"
  by (metis mset_sortBy set_mset_mset)

lemma distinct_map_sortBy: "distinct (map f (sortBy cmp xs)) = distinct (map f xs)"
proof -
  have "mset (map f (sortBy cmp xs)) = mset (map f xs)"
    by (simp add: mset_sortBy)
  then show ?thesis by (rule mset_eq_imp_distinct_iff)
qed

lemma sorted_insertBy:
  assumes "consistentCompare cmp" "sorted_wrt (\<lambda>a b. cmp a b \<le> 0) ys"
  shows "sorted_wrt (\<lambda>a b. cmp a b \<le> 0) (insertBy cmp x ys)"
  using assms(2)
proof (induction ys)
  case Nil
  then show ?case by simp
next
  case (Cons y ys)
  have tot: "\<And>a b. \<not> cmp a b \<le> 0 \<Longrightarrow> cmp b a \<le> 0"
    using assms(1) unfolding consistentCompare_def by blast
  have tr: "\<And>a b c. cmp a b \<le> 0 \<Longrightarrow> cmp b c \<le> 0 \<Longrightarrow> cmp a c \<le> 0"
    using assms(1) unfolding consistentCompare_def by blast
  show ?case
  proof (cases "cmp x y \<le> 0")
    case True
    then show ?thesis using Cons.prems tr by auto
  next
    case False
    have "set (insertBy cmp x ys) = insert x (set ys)"
      by (metis mset_insertBy set_mset_add_mset_insert set_mset_mset)
    then show ?thesis using False Cons tot by auto
  qed
qed

lemma sorted_sortBy:
  "consistentCompare cmp \<Longrightarrow> sorted_wrt (\<lambda>a b. cmp a b \<le> 0) (sortBy cmp xs)"
  by (induction xs) (auto simp: sortBy_def sorted_insertBy)

lemma sortBy_sorted_id:
  "sorted_wrt (\<lambda>a b. cmp a b \<le> 0) xs \<Longrightarrow> sortBy cmp xs = xs"
proof (induction xs)
  case Nil
  then show ?case by (simp add: sortBy_def)
next
  case (Cons x xs)
  then have "sortBy cmp xs = xs" by simp
  then have "sortBy cmp (x # xs) = insertBy cmp x xs" by (simp add: sortBy_def)
  also have "\<dots> = x # xs" using Cons.prems by (cases xs) auto
  finally show ?case .
qed

section \<open>Properties of cleanTeamsArray\<close>

lemma update_fresh: "map_of al k = None \<Longrightarrow> AList.update k v al = al @ [(k, v)]"
  by (induction al) (auto split: if_splits)

lemma cleanTeamsStep_eq:
  "cleanTeamsStep P A t =
     AList.update (teamSlug P t)
       \<lparr> slug = (case map_of A (teamSlug P t) of None \<Rightarrow> None | Some e \<Rightarrow> slug e),
         names = Some (uniq ((case map_of A (teamSlug P t) of None \<Rightarrow> [] | Some e \<Rightarrow> (case names e of None \<Rightarrow> [] | Some ns \<Rightarrow> ns)) @ cleanedNames t)),
         logo = Some (logoOf (teamSlug P t)) \<rparr> A"
proof (cases "map_of A (teamSlug P t)")
  case None
  then show ?thesis by (simp add: cleanTeamsStep_def Let_def)
next
  case (Some e)
  then show ?thesis by (cases e) (simp add: cleanTeamsStep_def Let_def)
qed

lemma cleanTeamsStep_made:
  assumes "\<forall>k e. map_of A k = Some e \<longrightarrow> madeEntry k e"
  shows "\<forall>k e. map_of (cleanTeamsStep P A t) k = Some e \<longrightarrow> madeEntry k e"
proof (intro allI impI)
  fix k e
  assume h: "map_of (cleanTeamsStep P A t) k = Some e"
  show "madeEntry k e"
  proof (cases "k = teamSlug P t")
    case True
    show ?thesis
    proof (cases "map_of A (teamSlug P t)")
      case None
      then show ?thesis using h True
        by (auto simp: cleanTeamsStep_eq update_conv' madeEntry_def distinct_uniq)
    next
      case (Some e0)
      then have "madeEntry (teamSlug P t) e0" using assms by blast
      then show ?thesis using h True Some
        by (auto simp: cleanTeamsStep_eq update_conv' madeEntry_def distinct_uniq)
    qed
  next
    case False
    then have "map_of A k = Some e" using h by (simp add: cleanTeamsStep_eq update_conv')
    then show ?thesis using assms by blast
  qed
qed

lemma cleanTeamsStep_distinct:
  "distinct (map fst A) \<Longrightarrow> distinct (map fst (cleanTeamsStep P A t))"
  by (simp add: cleanTeamsStep_eq distinct_update)

lemma cleanTeams_fold_inv:
  "distinct (map fst A) \<Longrightarrow> \<forall>k e. map_of A k = Some e \<longrightarrow> madeEntry k e \<Longrightarrow>
   distinct (map fst (foldl (cleanTeamsStep P) A ts)) \<and>
   (\<forall>k e. map_of (foldl (cleanTeamsStep P) A ts) k = Some e \<longrightarrow> madeEntry k e)"
proof (induction ts arbitrary: A)
  case Nil
  then show ?case by simp
next
  case (Cons t ts)
  show ?case
    using Cons.IH [OF cleanTeamsStep_distinct [OF Cons.prems(1)] cleanTeamsStep_made [OF Cons.prems(2)]]
    by simp
qed

lemma cleanTeamsEntries_distinct: "distinct (map fst (cleanTeamsEntries P ts))"
  using cleanTeams_fold_inv [of "[]" P ts]
  by (simp add: cleanTeamsEntries_def distinct_map_sortBy)

lemma cleanTeamsEntries_made:
  assumes "(k, e) \<in> set (cleanTeamsEntries P ts)"
  shows "madeEntry k e"
proof -
  have d: "distinct (map fst (foldl (cleanTeamsStep P) [] ts))"
    and m: "\<forall>k e. map_of (foldl (cleanTeamsStep P) [] ts) k = Some e \<longrightarrow> madeEntry k e"
    using cleanTeams_fold_inv [of "[]" P ts] by simp_all
  from assms have "(k, e) \<in> set (foldl (cleanTeamsStep P) [] ts)"
    by (simp add: cleanTeamsEntries_def set_sortBy)
  then have "map_of (foldl (cleanTeamsStep P) [] ts) k = Some e"
    using d by simp
  then show ?thesis using m by blast
qed

lemma logoOf_inj: "logoOf a = logoOf b \<Longrightarrow> a = b"
  by (simp add: logoOf_def)

lemma logoOf_nonempty: "logoOf k \<noteq> []"
  by (simp add: logoOf_def)

lemma fixedEntry_clean:
  assumes "fixedEntry P k e"
  shows "teamSlug P e = k" and "names e = Some (cleanedNames e)" and "distinct (cleanedNames e)"
    and "e = \<lparr> slug = None, names = Some (cleanedNames e), logo = Some (logoOf k) \<rparr>"
proof -
  from assms obtain N where e: "e = \<lparr> slug = None, names = Some N, logo = Some (logoOf k) \<rparr>"
    and d: "distinct N" and f: "\<forall>n \<in> set N. n \<noteq> [] \<and> stripRankPrefix n = n"
    and h: "case N of [] \<Rightarrow> toSlug P (slugFromLogo (logoOf k)) = k | n # _ \<Rightarrow> toSlug P n = k"
    unfolding fixedEntry_def by blast
  have "map stripRankPrefix N = N" using f by (induction N) auto
  moreover have "filter (\<lambda>n. n \<noteq> []) N = N" using f by (induction N) auto
  ultimately have c: "cleanedNames e = N" by (simp add: cleanedNames_def e)
  show "names e = Some (cleanedNames e)" using c e by simp
  show "distinct (cleanedNames e)" using c d by simp
  show "e = \<lparr> slug = None, names = Some (cleanedNames e), logo = Some (logoOf k) \<rparr>" using c e by simp
  show "teamSlug P e = k"
  proof (cases N)
    case Nil
    then show ?thesis using h c e by (simp add: teamSlug_def orElse_def logoOf_nonempty)
  next
    case (Cons n ns)
    then have "n \<noteq> []" using f by simp
    then show ?thesis using h c Cons by (simp add: teamSlug_def)
  qed
qed

lemma cleanTeamsStep_fixed:
  assumes inv: "\<forall>k e. map_of A k = Some e \<longrightarrow> fixedEntry P k e"
    and st: "settledTeam P t"
  shows "\<forall>k e. map_of (cleanTeamsStep P A t) k = Some e \<longrightarrow> fixedEntry P k e"
proof (intro allI impI)
  fix k e
  assume h: "map_of (cleanTeamsStep P A t) k = Some e"
  let ?k = "teamSlug P t"
  let ?c = "cleanedNames t"
  have cn1: "\<forall>n \<in> set ?c. stripRankPrefix n = n"
    using st unfolding settledTeam_def by blast
  have cn2: "\<forall>n \<in> set ?c. n \<noteq> []"
    by (simp add: cleanedNames_def)
  have cn: "\<forall>n \<in> set ?c. n \<noteq> [] \<and> stripRankPrefix n = n"
    using cn1 cn2 by blast
  have hd_c: "\<And>c cs. ?c = c # cs \<Longrightarrow> toSlug P c = ?k"
  proof -
    fix c cs assume a: "?c = c # cs"
    then have "c \<noteq> []" using cn by simp
    then show "toSlug P c = ?k" using a by (simp add: teamSlug_def)
  qed
  show "fixedEntry P k e"
  proof (cases "k = ?k")
    case False
    then have "map_of A k = Some e" using h by (simp add: cleanTeamsStep_eq update_conv')
    then show ?thesis using inv by blast
  next
    case True
    show ?thesis
    proof (cases "map_of A ?k")
      case None
      then have e: "e = \<lparr> slug = None, names = Some (uniq ?c), logo = Some (logoOf ?k) \<rparr>"
        using h True by (simp add: cleanTeamsStep_eq update_conv')
      have "case uniq ?c of [] \<Rightarrow> toSlug P (slugFromLogo (logoOf ?k)) = ?k | n # _ \<Rightarrow> toSlug P n = ?k"
      proof (cases ?c)
        case Nil
        then show ?thesis using st by (simp add: uniq_def settledTeam_def)
      next
        case (Cons c cs)
        obtain zs where "uniq (c # cs) = c # zs" using uniq_Cons_prefix [of c cs] by blast
        then show ?thesis using Cons hd_c by simp
      qed
      then show ?thesis unfolding fixedEntry_def True using e cn
        by (intro exI [of _ "uniq ?c"]) (simp add: distinct_uniq set_uniq)
    next
      case (Some e0)
      then have "fixedEntry P ?k e0" using inv by blast
      then obtain N where e0: "e0 = \<lparr> slug = None, names = Some N, logo = Some (logoOf ?k) \<rparr>"
        and d: "distinct N" and f: "\<forall>n \<in> set N. n \<noteq> [] \<and> stripRankPrefix n = n"
        and hN: "case N of [] \<Rightarrow> toSlug P (slugFromLogo (logoOf ?k)) = ?k | n # _ \<Rightarrow> toSlug P n = ?k"
        unfolding fixedEntry_def by blast
      have e: "e = \<lparr> slug = None, names = Some (uniq (N @ ?c)), logo = Some (logoOf ?k) \<rparr>"
        using h True Some e0 by (simp add: cleanTeamsStep_eq update_conv')
      have "case uniq (N @ ?c) of [] \<Rightarrow> toSlug P (slugFromLogo (logoOf ?k)) = ?k | n # _ \<Rightarrow> toSlug P n = ?k"
      proof (cases N)
        case Nil
        show ?thesis
        proof (cases ?c)
          case Nil
          then show ?thesis using st \<open>N = []\<close> by (simp add: uniq_def settledTeam_def)
        next
          case (Cons c cs)
          obtain zs where "uniq (c # cs) = c # zs" using uniq_Cons_prefix [of c cs] by blast
          then show ?thesis using Cons hd_c \<open>N = []\<close> by simp
        qed
      next
        case (Cons n ns)
        obtain zs where "uniq (N @ ?c) = N @ zs" using uniq_append_prefix [OF d, of ?c] by blast
        then show ?thesis using Cons hN by simp
      qed
      then show ?thesis unfolding fixedEntry_def True using e cn f
        by (intro exI [of _ "uniq (N @ ?c)"]) (auto simp: distinct_uniq set_uniq)
    qed
  qed
qed

lemma cleanTeams_fold_fixed:
  "\<forall>k e. map_of A k = Some e \<longrightarrow> fixedEntry P k e \<Longrightarrow> \<forall>t \<in> set ts. settledTeam P t \<Longrightarrow>
   \<forall>k e. map_of (foldl (cleanTeamsStep P) A ts) k = Some e \<longrightarrow> fixedEntry P k e"
proof (induction ts arbitrary: A)
  case Nil
  then show ?case by simp
next
  case (Cons t ts)
  have "\<forall>k e. map_of (cleanTeamsStep P A t) k = Some e \<longrightarrow> fixedEntry P k e"
    using cleanTeamsStep_fixed [OF Cons.prems(1)] Cons.prems(2) by auto
  then show ?case using Cons.IH Cons.prems(2) by simp
qed

lemma cleanTeamsEntries_fixed:
  assumes "\<forall>t \<in> set ts. settledTeam P t" and "(k, e) \<in> set (cleanTeamsEntries P ts)"
  shows "fixedEntry P k e"
proof -
  have d: "distinct (map fst (foldl (cleanTeamsStep P) [] ts))"
    using cleanTeams_fold_inv [of "[]" P ts] by simp
  have m: "\<forall>k e. map_of (foldl (cleanTeamsStep P) [] ts) k = Some e \<longrightarrow> fixedEntry P k e"
    using cleanTeams_fold_fixed [of "[]" P ts] assms(1) by simp
  from assms(2) have "(k, e) \<in> set (foldl (cleanTeamsStep P) [] ts)"
    by (simp add: cleanTeamsEntries_def set_sortBy)
  then have "map_of (foldl (cleanTeamsStep P) [] ts) k = Some e"
    using d by simp
  then show ?thesis using m by blast
qed

lemma cleanTeams_fold_again:
  "\<forall>(k, e) \<in> set S. fixedEntry P k e \<Longrightarrow> distinct (map fst (A @ S)) \<Longrightarrow>
   foldl (cleanTeamsStep P) A (map snd S) = A @ S"
proof (induction S arbitrary: A)
  case Nil
  then show ?case by simp
next
  case (Cons ke S)
  obtain k e where ke: "ke = (k, e)" by (cases ke)
  have fx: "fixedEntry P k e" using Cons.prems(1) ke by simp
  have none: "map_of A k = None"
    using Cons.prems(2) ke by (auto simp: map_of_eq_None_iff)
  have "cleanTeamsStep P A e = A @ [(k, e)]"
    using fixedEntry_clean [OF fx] none
    by (simp add: cleanTeamsStep_eq update_fresh uniq_distinct_id)
  moreover have "foldl (cleanTeamsStep P) (A @ [(k, e)]) (map snd S) = (A @ [(k, e)]) @ S"
    using Cons.prems ke by (intro Cons.IH) auto
  ultimately show ?case using ke by simp
qed

lemma consistent_compareKeys:
  "consistentCompare (localeCompare P) \<Longrightarrow> consistentCompare (compareKeys P)"
  unfolding consistentCompare_def compareKeys_def by blast

lemma cleanTeamsEntries_sorted:
  "consistentCompare (localeCompare P) \<Longrightarrow>
   sorted_wrt (\<lambda>a b. localeCompare P a b \<le> 0) (map fst (cleanTeamsEntries P ts))"
  using sorted_sortBy [OF consistent_compareKeys, of P "foldl (cleanTeamsStep P) [] ts"]
  by (simp add: cleanTeamsEntries_def sorted_wrt_map compareKeys_def)

lemma cleanTeamsEntries_again:
  assumes "consistentCompare (localeCompare P)" and "\<forall>t \<in> set ts. settledTeam P t"
  shows "cleanTeamsEntries P (map snd (cleanTeamsEntries P ts)) = cleanTeamsEntries P ts"
proof -
  let ?S = "cleanTeamsEntries P ts"
  have "\<forall>(k, e) \<in> set ?S. fixedEntry P k e"
    using cleanTeamsEntries_fixed [OF assms(2)] by blast
  then have "foldl (cleanTeamsStep P) [] (map snd ?S) = ?S"
    using cleanTeams_fold_again [of ?S P "[]"] cleanTeamsEntries_distinct [of P ts] by simp
  moreover have "sortBy (compareKeys P) ?S = ?S"
    using sorted_sortBy [OF consistent_compareKeys [OF assms(1)], of "foldl (cleanTeamsStep P) [] ts"]
    by (intro sortBy_sorted_id) (simp add: cleanTeamsEntries_def)
  ultimately show ?thesis by (simp add: cleanTeamsEntries_def [of P "map snd ?S"])
qed

section \<open>Properties of cleanRegions\<close>

lemma cleanRegionList_acc:
  "cleanRegionList P seen out items = out @ cleanRegionList P seen [] items"
proof (induction items arbitrary: seen out)
  case Nil
  then show ?case by simp
next
  case (Cons item rest)
  show ?case
  proof (cases "toSlug P (regionName item) \<in> seen")
    case True
    then show ?thesis using Cons [of seen out] by (simp add: Let_def)
  next
    case False
    then show ?thesis
      using Cons [of "insert (toSlug P (regionName item)) seen"
                     "out @ [regionEntry P (regionName item)]"]
            Cons [of "insert (toSlug P (regionName item)) seen" "[regionEntry P (regionName item)]"]
      by (simp add: Let_def regionEntry_def)
  qed
qed

lemma cleanRegionList_Cons:
  "cleanRegionList P seen [] (item # rest) =
     (if toSlug P (regionName item) \<in> seen then cleanRegionList P seen [] rest
      else regionEntry P (regionName item) #
           cleanRegionList P (insert (toSlug P (regionName item)) seen) [] rest)"
  using cleanRegionList_acc [of P "insert (toSlug P (regionName item)) seen" "[regionEntry P (regionName item)]" rest]
  by (simp add: Let_def regionEntry_def)

lemma cleanRegionList_entries:
  "e \<in> set (cleanRegionList P seen [] items) \<Longrightarrow>
   \<exists>item \<in> set items. e = regionEntry P (regionName item) \<and> toSlug P (regionName item) \<notin> seen"
proof (induction items arbitrary: seen)
  case Nil
  then show ?case by simp
next
  case (Cons item rest)
  show ?case
  proof (cases "toSlug P (regionName item) \<in> seen")
    case True
    then have "e \<in> set (cleanRegionList P seen [] rest)"
      using Cons.prems by (simp add: cleanRegionList_Cons del: cleanRegionList.simps)
    then show ?thesis using Cons.IH by auto
  next
    case False
    then have "e = regionEntry P (regionName item) \<or>
               e \<in> set (cleanRegionList P (insert (toSlug P (regionName item)) seen) [] rest)"
      using Cons.prems by (simp add: cleanRegionList_Cons del: cleanRegionList.simps)
    then show ?thesis
    proof
      assume "e = regionEntry P (regionName item)"
      then show ?thesis using False by simp
    next
      assume "e \<in> set (cleanRegionList P (insert (toSlug P (regionName item)) seen) [] rest)"
      from Cons.IH [OF this] show ?thesis by auto
    qed
  qed
qed

lemma cleanRegionList_distinct:
  "distinct (map slug (cleanRegionList P seen [] items))"
proof (induction items arbitrary: seen)
  case Nil
  then show ?case by simp
next
  case (Cons item rest)
  show ?case
  proof (cases "toSlug P (regionName item) \<in> seen")
    case True
    then show ?thesis using Cons.IH by (simp add: cleanRegionList_Cons del: cleanRegionList.simps)
  next
    case False
    have "slug (regionEntry P (regionName item)) \<notin>
          slug ` set (cleanRegionList P (insert (toSlug P (regionName item)) seen) [] rest)"
    proof
      assume "slug (regionEntry P (regionName item)) \<in>
          slug ` set (cleanRegionList P (insert (toSlug P (regionName item)) seen) [] rest)"
      then obtain e where e: "e \<in> set (cleanRegionList P (insert (toSlug P (regionName item)) seen) [] rest)"
        and s: "slug e = slug (regionEntry P (regionName item))" by auto
      from cleanRegionList_entries [OF e] obtain it where
        "e = regionEntry P (regionName it)"
        "toSlug P (regionName it) \<notin> insert (toSlug P (regionName item)) seen" by blast
      then show False using s by (simp add: regionEntry_def)
    qed
    then show ?thesis using False Cons.IH by (simp add: cleanRegionList_Cons del: cleanRegionList.simps)
  qed
qed

lemma stripRankPrefix_Nil: "stripRankPrefix [] = []"
  by (simp add: stripRankPrefix_def matchRankPrefix_def trim_def)

lemma toSlug_Nil: "regularPlatform P \<Longrightarrow> toSlug P [] = []"
  by (simp add: regularPlatform_def toSlug_def trimHyphens_def)

lemma regionName_regionEntry:
  assumes "regularPlatform P" and "stripRankPrefix n = n"
  shows "regionName (regionEntry P n) = n"
proof (cases "n = []")
  case True
  then show ?thesis using toSlug_Nil [OF assms(1)]
    by (simp add: regionName_def regionEntry_def firstName_def orElse_def stripRankPrefix_Nil)
next
  case False
  then show ?thesis using assms(2)
    by (simp add: regionName_def regionEntry_def firstName_def orElse_def)
qed

lemma cleanRegionList_again:
  assumes "regularPlatform P"
  shows "\<forall>e \<in> set L. \<exists>n. e = regionEntry P n \<and> stripRankPrefix n = n \<and> toSlug P n \<notin> seen \<Longrightarrow>
         distinct (map slug L) \<Longrightarrow> cleanRegionList P seen [] L = L"
proof (induction L arbitrary: seen)
  case Nil
  then show ?case by simp
next
  case (Cons e L)
  from Cons.prems(1) obtain n where e: "e = regionEntry P n" and st: "stripRankPrefix n = n"
    and ns: "toSlug P n \<notin> seen" by auto
  have rn: "regionName e = n" using regionName_regionEntry [OF assms st] e by simp
  have "\<forall>e' \<in> set L. \<exists>n'. e' = regionEntry P n' \<and> stripRankPrefix n' = n' \<and> toSlug P n' \<notin> insert (toSlug P n) seen"
  proof
    fix e' assume m: "e' \<in> set L"
    then obtain n' where e': "e' = regionEntry P n'" and st': "stripRankPrefix n' = n'"
      and ns': "toSlug P n' \<notin> seen" using Cons.prems(1) by auto
    have "slug e \<notin> slug ` set L" using Cons.prems(2) by simp
    then have "slug e' \<noteq> slug e" using m by (metis imageI)
    then have "toSlug P n' \<noteq> toSlug P n" using e e' by (auto simp: regionEntry_def)
    then show "\<exists>n'. e' = regionEntry P n' \<and> stripRankPrefix n' = n' \<and> toSlug P n' \<notin> insert (toSlug P n) seen"
      using e' st' ns' by blast
  qed
  then have "cleanRegionList P (insert (toSlug P n) seen) [] L = L"
    using Cons.IH Cons.prems(2) by simp
  then show ?case using rn ns e by (simp add: cleanRegionList_Cons del: cleanRegionList.simps)
qed

lemma cleanRegionList_idem:
  assumes "regularPlatform P" and "\<forall>item \<in> set items. settledItem item"
  shows "cleanRegionList P {} [] (cleanRegionList P {} [] items) = cleanRegionList P {} [] items"
proof (rule cleanRegionList_again [OF assms(1)])
  show "\<forall>e \<in> set (cleanRegionList P {} [] items).
          \<exists>n. e = regionEntry P n \<and> stripRankPrefix n = n \<and> toSlug P n \<notin> {}"
  proof
    fix e assume "e \<in> set (cleanRegionList P {} [] items)"
    from cleanRegionList_entries [OF this] obtain item where
      "item \<in> set items" "e = regionEntry P (regionName item)" by blast
    then show "\<exists>n. e = regionEntry P n \<and> stripRankPrefix n = n \<and> toSlug P n \<notin> {}"
      using assms(2) by (auto simp: settledItem_def)
  qed
  show "distinct (map slug (cleanRegionList P {} [] items))"
    by (rule cleanRegionList_distinct)
qed

lemma cleanRegions_idem:
  assumes "regularPlatform P"
    and "\<forall>(region, list) \<in> set (case rs of None \<Rightarrow> [] | Some m \<Rightarrow> m). \<forall>item \<in> set list. settledItem item"
  shows "cleanRegions P (cleanRegions P rs) = cleanRegions P rs"
proof (cases rs)
  case None
  then show ?thesis by (simp add: cleanRegions_def)
next
  case (Some m)
  have "map (\<lambda>(region, list). (region, cleanRegionList P {} [] list))
          (map (\<lambda>(region, list). (region, cleanRegionList P {} [] list)) m) =
        map (\<lambda>(region, list). (region, cleanRegionList P {} [] list)) m"
    using assms(2) Some cleanRegionList_idem [OF assms(1)]
    by (induction m) auto
  then show ?thesis using Some by (simp add: cleanRegions_def)
qed

section \<open>Properties of the expand script\<close>

lemma buildSlugStep_distinct:
  "distinct (map fst A) \<Longrightarrow> distinct (map fst (buildSlugStep P A t))"
  by (auto simp: buildSlugStep_def Let_def map_of_eq_None_iff)

lemma buildSlug_fold_distinct:
  "distinct (map fst A) \<Longrightarrow> distinct (map fst (foldl (buildSlugStep P) A ts))"
  by (induction ts arbitrary: A) (simp_all add: buildSlugStep_distinct)

lemma buildSlugIndex_distinct: "distinct (map fst (buildSlugIndex P ts))"
  by (simp add: buildSlugIndex_def buildSlug_fold_distinct)

lemma buildSlugStep_map_of:
  "map_of (buildSlugStep P A t) k =
     (case map_of A k of Some e \<Rightarrow> Some e | None \<Rightarrow> if indexKey P t = k then Some t else None)"
  by (auto simp: buildSlugStep_def Let_def map_of_append map_add_def split: option.splits)

lemma buildSlug_fold_map_of:
  "map_of (foldl (buildSlugStep P) A ts) k =
     (case map_of A k of Some e \<Rightarrow> Some e | None \<Rightarrow> List.find (\<lambda>t. indexKey P t = k) ts)"
proof (induction ts arbitrary: A)
  case Nil
  then show ?case by (simp split: option.splits)
next
  case (Cons t ts)
  show ?case
    by (simp add: Cons.IH buildSlugStep_map_of split: option.splits)
qed

lemma buildSlugIndex_first:
  "map_of (buildSlugIndex P ts) k = List.find (\<lambda>t. indexKey P t = k) ts"
  by (simp add: buildSlugIndex_def buildSlug_fold_map_of)

lemma mergeTeam_distinct:
  "distinct (map fst A) \<Longrightarrow> distinct (map fst (fst (mergeTeam P A nm)))"
  by (simp add: mergeTeam_def Let_def distinct_update split: option.splits)

lemma mergeTeam_result:
  "map_of (fst (mergeTeam P A nm)) = (map_of A)(slugify P nm \<mapsto> snd (mergeTeam P A nm))"
  by (simp add: mergeTeam_def Let_def update_conv' split: option.splits)

lemma mergeTeam_names:
  "\<exists>ns. names (snd (mergeTeam P A nm)) = Some ns \<and> nm \<in> set ns"
  by (simp add: mergeTeam_def Let_def set_sortBy set_uniq split: option.splits)

lemma mergeTeam_logo:
  "logo (snd (mergeTeam P A nm)) = Some (logoOf (slugText (slugify P nm)))"
  by (simp add: mergeTeam_def Let_def split: option.splits)

lemma mergeName_eq:
  "mergeName P (A, out) nm =
     (fst (mergeTeam P A nm),
      out @ [\<lparr> slug = jsonSlug (slugify P nm), names = names (snd (mergeTeam P A nm)),
               logo = Some (logoOf (slugText (slugify P nm))) \<rparr>])"
  by (simp add: mergeName_def Let_def split: prod.splits)

lemma mergeName_fold:
  "distinct (map fst A) \<Longrightarrow>
   \<exists>A' list. foldl (mergeName P) (A, out) nms = (A', out @ list) \<and>
     distinct (map fst A') \<and> list_all2 (freshEntry P) nms list"
proof (induction nms arbitrary: A out)
  case Nil
  then show ?case by simp
next
  case (Cons nm nms)
  let ?e = "\<lparr> slug = jsonSlug (slugify P nm), names = names (snd (mergeTeam P A nm)),
               logo = Some (logoOf (slugText (slugify P nm))) \<rparr>"
  have fe: "freshEntry P nm ?e"
    using mergeTeam_names [of P A nm] by (simp add: freshEntry_def)
  from Cons.IH [where out = "out @ [?e]", OF mergeTeam_distinct [OF Cons.prems, of P nm]]
  obtain A' list where
    f: "foldl (mergeName P) (fst (mergeTeam P A nm), out @ [?e]) nms = (A', (out @ [?e]) @ list)"
    and d: "distinct (map fst A')" and l: "list_all2 (freshEntry P) nms list"
    by blast
  have "foldl (mergeName P) (A, out) (nm # nms) = (A', out @ (?e # list))"
    using f by (simp add: mergeName_eq)
  moreover have "list_all2 (freshEntry P) (nm # nms) (?e # list)"
    using fe l by simp
  ultimately show ?case using d by blast
qed

lemma regionStep_distinct:
  "distinct (map fst A) \<Longrightarrow> distinct (map fst (fst (regionStep P g (A, rs) rg)))"
proof (cases "g (url rg)")
  case None
  assume "distinct (map fst A)"
  then show ?thesis using None by (simp add: regionStep_def)
next
  case (Some nms)
  assume "distinct (map fst A)"
  from mergeName_fold [OF this, of P "[]" nms] obtain A' list where
    "foldl (mergeName P) (A, []) nms = (A', list)" "distinct (map fst A')" by auto
  then show ?thesis using Some by (simp add: regionStep_def)
qed

lemma regionStep_other:
  "c \<noteq> code rg \<Longrightarrow> map_of (snd (regionStep P g (A, rs) rg)) c = map_of rs c"
  by (simp add: regionStep_def update_conv' split: option.splits prod.splits)

lemma regionStep_own:
  "distinct (map fst A) \<Longrightarrow>
   \<exists>v. map_of (snd (regionStep P g (A, rs) rg)) (code rg) = Some v \<and> regionOutcome P g rs rg v"
proof (cases "g (url rg)")
  case None
  assume "distinct (map fst A)"
  show ?thesis using None
    by (cases "map_of rs (code rg)") (simp_all add: regionStep_def regionOutcome_def update_conv')
next
  case (Some nms)
  assume "distinct (map fst A)"
  from mergeName_fold [OF this, of P "[]" nms] obtain A' list where
    "foldl (mergeName P) (A, []) nms = (A', list)" "list_all2 (freshEntry P) nms list" by auto
  then show ?thesis using Some by (simp add: regionStep_def regionOutcome_def update_conv')
qed

lemma regionLoop_distinct:
  "distinct (map fst A) \<Longrightarrow> distinct (map fst (fst (foldl (regionStep P g) (A, rs) RS)))"
proof (induction RS arbitrary: A rs)
  case Nil
  then show ?case by simp
next
  case (Cons rg RS)
  obtain A1 rs1 where s: "regionStep P g (A, rs) rg = (A1, rs1)" by (cases "regionStep P g (A, rs) rg")
  have "distinct (map fst A1)" using regionStep_distinct [OF Cons.prems, of P g rs rg] s by simp
  then show ?case using Cons.IH s by simp
qed

lemma regionLoop_other:
  "c \<notin> code ` set RS \<Longrightarrow> map_of (snd (foldl (regionStep P g) (A, rs) RS)) c = map_of rs c"
proof (induction RS arbitrary: A rs)
  case Nil
  then show ?case by simp
next
  case (Cons rg RS)
  obtain A1 rs1 where s: "regionStep P g (A, rs) rg = (A1, rs1)" by (cases "regionStep P g (A, rs) rg")
  have "map_of rs1 c = map_of rs c"
    using regionStep_other [of c rg P g A rs] Cons.prems s by simp
  then show ?case using Cons.IH [of A1 rs1] Cons.prems s by simp
qed

lemma regionLoop_outcome:
  "distinct (map fst A) \<Longrightarrow> distinct (map code RS) \<Longrightarrow> r \<in> set RS \<Longrightarrow>
   \<exists>v. map_of (snd (foldl (regionStep P g) (A, rs) RS)) (code r) = Some v \<and> regionOutcome P g rs r v"
proof (induction RS arbitrary: A rs)
  case Nil
  then show ?case by simp
next
  case (Cons rg RS)
  obtain A1 rs1 where s: "regionStep P g (A, rs) rg = (A1, rs1)" by (cases "regionStep P g (A, rs) rg")
  have d1: "distinct (map fst A1)" using regionStep_distinct [OF Cons.prems(1), of P g rs rg] s by simp
  show ?case
  proof (cases "r \<in> set RS")
    case True
    have "code rg \<notin> code ` set RS" using Cons.prems(2) by simp
    then have ne: "code r \<noteq> code rg" using True by (metis imageI)
    from Cons.IH [OF d1 _ True, of rs1] Cons.prems(2) obtain v where
      v: "map_of (snd (foldl (regionStep P g) (A1, rs1) RS)) (code r) = Some v"
      and o: "regionOutcome P g rs1 r v" by auto
    have "map_of rs1 (code r) = map_of rs (code r)"
      using regionStep_other [OF ne, of P g A rs] s by simp
    then have "regionOutcome P g rs r v" using o
      by (cases "g (url r)") (simp_all add: regionOutcome_def)
    then show ?thesis using v s by simp
  next
    case False
    then have eq: "r = rg" using Cons.prems(3) by simp
    then have "code r \<notin> code ` set RS" using Cons.prems(2) by simp
    then have "map_of (snd (foldl (regionStep P g) (A1, rs1) RS)) (code r) = map_of rs1 (code r)"
      by (rule regionLoop_other)
    moreover from regionStep_own [OF Cons.prems(1), of P g rs rg] obtain v where
      "map_of rs1 (code r) = Some v" "regionOutcome P g rs r v" using s eq by auto
    ultimately show ?thesis using s by auto
  qed
qed

lemma REGIONS_distinct: "distinct (map code REGIONS)"
  by (simp add: REGIONS_def)

section \<open>Nothing is skipped\<close>

lemma cleanTeamsArray_again:
  assumes "consistentCompare (localeCompare P)" and "\<forall>t \<in> set ts. settledTeam P t"
  shows "cleanTeamsArray P (cleanTeamsArray P ts) = cleanTeamsArray P ts"
  using cleanTeamsEntries_again [of P ts] assms
  by (simp add: cleanTeamsArray_def)







section \<open>The engine on ASCII strings\<close>

lemma codeUnitCompare_total: "codeUnitCompare a b \<le> 0 \<or> codeUnitCompare b a \<le> 0"
  by (induction a b rule: codeUnitCompare.induct) auto

lemma codeUnitCompare_trans:
  "codeUnitCompare a b \<le> 0 \<Longrightarrow> codeUnitCompare b c \<le> 0 \<Longrightarrow> codeUnitCompare a c \<le> 0"
proof (induction a b arbitrary: c rule: codeUnitCompare.induct)
  case 1
  then show ?case by simp
next
  case (2 y ys)
  then show ?case by (cases c) simp_all
next
  case (3 x xs)
  then show ?case by simp
next
  case (4 x xs y ys)
  show ?case
  proof (cases c)
    case Nil
    then show ?thesis using 4 by simp
  next
    case (Cons z zs)
    then show ?thesis using "4.prems" "4.IH" [of zs]
      by (auto split: if_splits)
  qed
qed

lemma regular_ascii_platform: "regularPlatform ascii_platform"
  unfolding regularPlatform_def consistentCompare_def
  using codeUnitCompare_total codeUnitCompare_trans
  by (auto simp: ascii_platform_def)

lemma consistent_ascii_platform: "consistentCompare (localeCompare ascii_platform)"
  using regular_ascii_platform by (simp add: regularPlatform_def)

lemmas string_defs =
  stripRankPrefix_def matchRankPrefix_def trim_def isWhiteSpace_def isDigit_def isSlugChar_def
  toSlug_def trimHyphens_def ascii_platform_def asciiLower_def
  dirname_def basename_def dropRankOfFile_def cleanLogoPath_def slugFromLogo_def logoOf_def
  orElse_def firstName_def

lemmas cleanup_defs =
  cleanup_def cleanTeamsArray_def cleanTeamsEntries_def cleanTeamsStep_def cleanedNames_def
  teamSlug_def uniq_def sortBy_def compareKeys_def cleanRegions_def regionName_def

section \<open>The output of cleanup and expand\<close>

lemma expand_cases:
  "expand P g db =
     (if sortThrows (fst (expandLoop P g db)) then Inl TypeError
      else Inr (db \<lparr> teams := Some (rebuildTeams P (textKeys (fst (expandLoop P g db)))),
                    regions := Some (snd (expandLoop P g db)) \<rparr>))"
  by (simp add: expand_def split: prod.splits)

lemma expand_Inr:
  assumes "expand P g db = Inr out"
  shows "teams out = Some (rebuildTeams P (textKeys (fst (expandLoop P g db))))"
    and "regions out = Some (snd (expandLoop P g db))"
    and "\<not> sortThrows (fst (expandLoop P g db))"
  using assms by (auto simp: expand_cases split: if_splits)

lemma mergeTeam_keys:
  "fst ` set (fst (mergeTeam P A nm)) = insert (slugify P nm) (fst ` set A)"
  by (simp add: mergeTeam_def Let_def dom_update split: option.splits)

lemma mergeName_fold_keys:
  "fst ` set (fst (foldl (mergeName P) (A, out) nms)) = fst ` set A \<union> slugify P ` set nms"
proof (induction nms arbitrary: A out)
  case Nil
  then show ?case by simp
next
  case (Cons nm nms)
  show ?case by (simp add: mergeName_eq Cons.IH mergeTeam_keys)
qed

lemma regionStep_keys:
  "fst ` set (fst (regionStep P g (A, rs) rg)) =
     fst ` set A \<union> slugify P ` set (case g (url rg) of None \<Rightarrow> [] | Some nms \<Rightarrow> nms)"
proof (cases "g (url rg)")
  case None
  then show ?thesis by (simp add: regionStep_def)
next
  case (Some nms)
  obtain A1 l1 where f: "foldl (mergeName P) (A, []) nms = (A1, l1)"
    by (cases "foldl (mergeName P) (A, []) nms")
  have "fst ` set A1 = fst ` set A \<union> slugify P ` set nms"
    using mergeName_fold_keys [of P A "[]" nms] f by simp
  then show ?thesis using Some f by (simp add: regionStep_def)
qed

lemma regionLoop_keys:
  "fst ` set (fst (foldl (regionStep P g) (A, rs) RS)) =
     fst ` set A \<union> slugify P ` set (fetchedNames g RS)"
proof (induction RS arbitrary: A rs)
  case Nil
  then show ?case by (simp add: fetchedNames_def)
next
  case (Cons rg RS)
  obtain A1 rs1 where st: "regionStep P g (A, rs) rg = (A1, rs1)"
    by (cases "regionStep P g (A, rs) rg")
  have "fst ` set A1 =
          fst ` set A \<union> slugify P ` set (case g (url rg) of None \<Rightarrow> [] | Some nms \<Rightarrow> nms)"
    using regionStep_keys [of P g A rs rg] st by simp
  moreover have "fetchedNames g (rg # RS) =
      (case g (url rg) of None \<Rightarrow> [] | Some nms \<Rightarrow> nms) @ fetchedNames g RS"
    by (simp add: fetchedNames_def)
  ultimately show ?case using Cons.IH [of A1 rs1] st by (simp add: image_Un Un_assoc)
qed

lemma buildSlug_fold_keys:
  "fst ` set (foldl (buildSlugStep P) A ts) = fst ` set A \<union> indexKey P ` set ts"
proof (induction ts arbitrary: A)
  case Nil
  then show ?case by simp
next
  case (Cons t ts)
  have "fst ` set (buildSlugStep P A t) = insert (indexKey P t) (fst ` set A)"
    by (auto simp: buildSlugStep_def Let_def map_of_eq_None_iff)
  then show ?case using Cons.IH [of "buildSlugStep P A t"] by auto
qed

lemma expandLoop_keys:
  "fst ` set (fst (expandLoop P g db)) =
     indexKey P ` set (case teams db of None \<Rightarrow> [] | Some ts \<Rightarrow> ts) \<union>
     slugify P ` set (fetchedNames g REGIONS)"
  using buildSlug_fold_keys [of P "[]"]
  by (simp add: expandLoop_def Let_def regionLoop_keys buildSlugIndex_def)

lemma expand_writes:
  assumes "ObjectFunction \<notin> indexKey P ` set (case teams db of None \<Rightarrow> [] | Some ts \<Rightarrow> ts)"
    and "ObjectFunction \<notin> slugify P ` set (fetchedNames g REGIONS)"
  shows "\<exists>out. expand P g db = Inr out"
proof -
  have "ObjectFunction \<notin> fst ` set (fst (expandLoop P g db))"
    using assms by (simp add: expandLoop_keys)
  moreover have "set (tl (fst (expandLoop P g db))) \<subseteq> set (fst (expandLoop P g db))"
    by (cases "fst (expandLoop P g db)") auto
  ultimately have "\<not> sortThrows (fst (expandLoop P g db))"
    by (auto simp: sortThrows_def)
  then show ?thesis by (simp add: expand_cases)
qed

lemma expandLoop_distinct: "distinct (map fst (fst (expandLoop P g db)))"
  by (simp add: expandLoop_def Let_def regionLoop_distinct buildSlugIndex_distinct)

lemma expandLoop_outcome:
  assumes "r \<in> set REGIONS"
  shows "\<exists>v. map_of (snd (expandLoop P g db)) (code r) = Some v \<and>
             regionOutcome P g (case regions db of None \<Rightarrow> [] | Some m \<Rightarrow> m) r v"
  using regionLoop_outcome [OF buildSlugIndex_distinct REGIONS_distinct assms]
  by (simp add: expandLoop_def Let_def)

lemma rebuildTeams_logos:
  "map logo (rebuildTeams P bySlug) = map (\<lambda>k. Some (logoOf k)) (map fst (sortBy (compareKeys P) bySlug))"
  by (simp add: rebuildTeams_def split_def)

lemma rebuildTeams_distinct:
  assumes "distinct (map fst bySlug)"
  shows "distinct (map logo (rebuildTeams P bySlug))"
proof -
  have "distinct (map fst (sortBy (compareKeys P) bySlug))"
    using assms by (simp add: distinct_map_sortBy)
  moreover have "inj_on (\<lambda>k. Some (logoOf k)) (set (map fst (sortBy (compareKeys P) bySlug)))"
    by (rule inj_onI) (simp add: logoOf_def)
  ultimately show ?thesis
    unfolding rebuildTeams_logos by (simp only: distinct_map)
qed

lemma cleanTeamsEntries_logo:
  assumes "(k, e) \<in> set (cleanTeamsEntries P ts)"
  shows "logo e = Some (logoOf k)"
proof -
  from cleanTeamsEntries_made [OF assms] obtain N where
    "e = \<lparr> slug = None, names = Some N, logo = Some (logoOf k) \<rparr>"
    unfolding madeEntry_def by blast
  then show ?thesis by simp
qed

lemma cleanTeamsArray_logos:
  "map logo (cleanTeamsArray P ts) = map (\<lambda>k. Some (logoOf k)) (map fst (cleanTeamsEntries P ts))"
proof -
  have "\<forall>ke \<in> set (cleanTeamsEntries P ts). logo (snd ke) = Some (logoOf (fst ke))"
    using cleanTeamsEntries_logo [of _ _ P ts] by auto
  then show ?thesis by (simp add: cleanTeamsArray_def)
qed

lemma cleanTeamsArray_distinct: "distinct (map logo (cleanTeamsArray P ts))"
proof -
  have "inj_on (\<lambda>k. Some (logoOf k)) (set (map fst (cleanTeamsEntries P ts)))"
    by (rule inj_onI) (simp add: logoOf_def)
  then show ?thesis
    unfolding cleanTeamsArray_logos using cleanTeamsEntries_distinct [of P ts]
    by (simp only: distinct_map)
qed

lemma sorted_index:
  "consistentCompare (localeCompare P) \<Longrightarrow>
   sorted_wrt (\<lambda>a b. localeCompare P a b \<le> 0) (map fst (sortBy (compareKeys P) bySlug))"
  using sorted_sortBy [OF consistent_compareKeys, of P bySlug]
  by (simp add: sorted_wrt_map compareKeys_def)

lemma buildSlugIndex_snoc:
  "buildSlugIndex P (ts @ [t]) = buildSlugStep P (buildSlugIndex P ts) t"
  by (simp add: buildSlugIndex_def)

lemma hyphenate_chars: "c \<in> set (hyphenate s) \<Longrightarrow> isSlugChar c \<or> c = hyphen"
proof (induction s rule: hyphenate.induct)
  case 1
  then show ?case by simp
next
  case (2 d ds)
  then show ?case by (cases "isSlugChar d") auto
qed

lemma trimHyphens_subset: "set (trimHyphens s) \<subseteq> set s"
proof
  fix c assume "c \<in> set (trimHyphens s)"
  then have "c \<in> set (dropWhile (\<lambda>c. c = hyphen) (rev (dropWhile (\<lambda>c. c = hyphen) s)))"
    by (simp add: trimHyphens_def)
  then have "c \<in> set (rev (dropWhile (\<lambda>c. c = hyphen) s))" by (rule set_dropWhileD)
  then have "c \<in> set (dropWhile (\<lambda>c. c = hyphen) s)" by simp
  then show "c \<in> set s" by (rule set_dropWhileD)
qed

lemma slugString_toSlug: "slugString (toSlug P n)"
  unfolding slugString_def toSlug_def Let_def
  using trimHyphens_subset hyphenate_chars by blast

lemma cleanTeams_fold_keys:
  "fst ` set (foldl (cleanTeamsStep P) A ts) = fst ` set A \<union> teamSlug P ` set ts"
  by (induction ts arbitrary: A) (auto simp: cleanTeamsStep_eq dom_update)

lemma cleanTeamsEntries_keys:
  "set (map fst (cleanTeamsEntries P ts)) = teamSlug P ` set ts"
  using cleanTeams_fold_keys [of P "[]" ts]
  by (simp add: cleanTeamsEntries_def set_sortBy)

lemma cleanTeamsEntries_codeUnits:
  assumes "consistentCompare (localeCompare P)" and "codeUnitOrderOnSlugs P"
  shows "sorted_wrt (\<lambda>a b. codeUnitCompare a b \<le> 0) (map fst (cleanTeamsEntries P ts))"
proof (rule sorted_wrt_mono_rel [OF _ cleanTeamsEntries_sorted [OF assms(1), of ts]])
  fix a b
  assume "a \<in> set (map fst (cleanTeamsEntries P ts))" "b \<in> set (map fst (cleanTeamsEntries P ts))"
    and le: "localeCompare P a b \<le> 0"
  then have "slugString a" "slugString b"
    unfolding cleanTeamsEntries_keys by (auto simp: teamSlug_def slugString_toSlug Let_def)
  then show "codeUnitCompare a b \<le> 0" using assms(2) le unfolding codeUnitOrderOnSlugs_def by blast
qed

lemma ascii_codeUnitOrder: "codeUnitOrderOnSlugs ascii_platform"
  by (simp add: codeUnitOrderOnSlugs_def ascii_platform_def)

text \<open>The keys of the index only grow at the end, and a loop of failed fetches leaves it as it is.\<close>

lemma failed_loop:
  "\<forall>rg \<in> set RS. g (url rg) = None \<Longrightarrow>
   foldl (regionStep P g) (A, rs) RS =
     (A, foldl (\<lambda>rs rg. if map_of rs (code rg) = None then AList.update (code rg) [] rs else rs) rs RS)"
  by (induction RS arbitrary: rs) (simp_all add: regionStep_def)

lemma mergeTeam_prefix: "\<exists>zs. map fst (fst (mergeTeam P A nm)) = map fst A @ zs"
  by (simp add: mergeTeam_def Let_def update_keys split: option.splits)

lemma mergeName_fold_prefix:
  "\<exists>zs. map fst (fst (foldl (mergeName P) (A, out) nms)) = map fst A @ zs"
proof (induction nms arbitrary: A out)
  case Nil
  then show ?case by simp
next
  case (Cons nm nms)
  obtain z1 where z1: "map fst (fst (mergeTeam P A nm)) = map fst A @ z1"
    using mergeTeam_prefix [of P A nm] by blast
  from Cons.IH [of "fst (mergeTeam P A nm)"] obtain z2 where
    "map fst (fst (foldl (mergeName P) (A, out) (nm # nms))) = map fst (fst (mergeTeam P A nm)) @ z2"
    by (auto simp: mergeName_eq)
  then show ?case using z1 by simp
qed

lemma regionStep_prefix: "\<exists>zs. map fst (fst (regionStep P g (A, rs) rg)) = map fst A @ zs"
proof (cases "g (url rg)")
  case None
  then show ?thesis by (simp add: regionStep_def)
next
  case (Some nms)
  then show ?thesis using mergeName_fold_prefix [of P A "[]" nms]
    by (auto simp: regionStep_def split: prod.splits)
qed

lemma regionLoop_prefix:
  "\<exists>zs. map fst (fst (foldl (regionStep P g) (A, rs) RS)) = map fst A @ zs"
proof (induction RS arbitrary: A rs)
  case Nil
  then show ?case by simp
next
  case (Cons rg RS)
  obtain A1 rs1 where st: "regionStep P g (A, rs) rg = (A1, rs1)"
    by (cases "regionStep P g (A, rs) rg")
  obtain z1 where z1: "map fst A1 = map fst A @ z1"
    using regionStep_prefix [of P g A rs rg] st by auto
  from Cons.IH [of A1 rs1] obtain z2 where
    "map fst (fst (foldl (regionStep P g) (A, rs) (rg # RS))) = map fst A1 @ z2"
    using st by auto
  then show ?case using z1 by simp
qed

lemma expandLoop_prefix:
  "\<exists>zs. map fst (fst (expandLoop P g db)) =
     map fst (buildSlugIndex P (case teams db of None \<Rightarrow> [] | Some ts \<Rightarrow> ts)) @ zs"
  by (simp add: expandLoop_def Let_def regionLoop_prefix)

lemma sortThrows_later:
  assumes "map fst bySlug = k # zs" and "ObjectFunction \<in> set zs"
  shows "sortThrows bySlug"
  using assms by (cases bySlug) (auto simp: sortThrows_def)

lemma expand_region_outcome:
  assumes "r \<in> set REGIONS" and "expand P g db = Inr out"
  shows "\<exists>m v. regions out = Some m \<and> map_of m (code r) = Some v \<and>
           regionOutcome P g (case regions db of None \<Rightarrow> [] | Some m0 \<Rightarrow> m0) r v"
  using expandLoop_outcome [OF assms(1), of P g db] expand_Inr(2) [OF assms(2)] by simp

lemma rebuildTeams_member:
  assumes "(k, e) \<in> set bySlug"
  shows "\<lparr> slug = None, names = names e, logo = Some (logoOf k) \<rparr> \<in> set (rebuildTeams P bySlug)"
proof -
  have "(k, e) \<in> set (sortBy (compareKeys P) bySlug)" using assms by (simp add: set_sortBy)
  then have "(\<lambda>(slg, entry). \<lparr> slug = None, names = names entry, logo = Some (logoOf slg) \<rparr>) (k, e)
      \<in> set (rebuildTeams P bySlug)"
    unfolding rebuildTeams_def set_map by (rule imageI)
  then show ?thesis by simp
qed

lemma textKeys_member: "(Str k, e) \<in> set bySlug \<Longrightarrow> (k, e) \<in> set (textKeys bySlug)"
  by (force simp: textKeys_def slugText_def)

lemma expandLoop_failed:
  assumes "\<forall>rg \<in> set REGIONS. g (url rg) = None"
  shows "expandLoop P g db =
     (buildSlugIndex P (case teams db of None \<Rightarrow> [] | Some ts \<Rightarrow> ts),
      foldl (\<lambda>rs rg. if map_of rs (code rg) = None then AList.update (code rg) [] rs else rs)
        (case regions db of None \<Rightarrow> [] | Some m \<Rightarrow> m) REGIONS)"
  by (simp add: expandLoop_def Let_def failed_loop [OF assms])

section \<open>slugify and toSlug\<close>

lemma singleHyphens_Cons:
  "singleHyphens (c # s) \<longleftrightarrow> singleHyphens s \<and> (c = hyphen \<longrightarrow> s = [] \<or> hd s \<noteq> hyphen)"
  by (cases s) auto

lemma singleHyphens_snoc:
  "singleHyphens (s @ [x]) \<longleftrightarrow> singleHyphens s \<and> (x = hyphen \<longrightarrow> s = [] \<or> last s \<noteq> hyphen)"
proof (induction s rule: singleHyphens.induct)
  case 1
  then show ?case by simp
next
  case (2 c)
  then show ?case by auto
next
  case (3 c d r)
  then show ?case by auto
qed

lemma singleHyphens_rev: "singleHyphens s \<Longrightarrow> singleHyphens (rev s)"
proof (induction s)
  case Nil
  then show ?case by simp
next
  case (Cons c s)
  then have a: "singleHyphens s" and b: "c = hyphen \<longrightarrow> s = [] \<or> hd s \<noteq> hyphen"
    by (simp_all add: singleHyphens_Cons)
  have "rev s \<noteq> [] \<Longrightarrow> last (rev s) = hd s" by (simp add: last_rev)
  then show ?case using Cons.IH [OF a] b by (auto simp: singleHyphens_snoc)
qed

lemma singleHyphens_tl: "singleHyphens s \<Longrightarrow> singleHyphens (tl s)"
  by (cases s) (simp_all add: singleHyphens_Cons)

lemma singleHyphens_butlast: "singleHyphens s \<Longrightarrow> singleHyphens (butlast s)"
proof (cases "s = []")
  case True
  then show ?thesis by simp
next
  case False
  assume "singleHyphens s"
  then have "singleHyphens (butlast s @ [last s])" using False by simp
  then show ?thesis by (simp only: singleHyphens_snoc)
qed

lemma dropWhile_singleHyphens:
  "singleHyphens s \<Longrightarrow>
   dropWhile (\<lambda>c. c = hyphen) s = (case s of [] \<Rightarrow> [] | c # r \<Rightarrow> if c = hyphen then r else s)"
proof (cases s)
  case Nil
  then show ?thesis by simp
next
  case (Cons c r)
  assume "singleHyphens s"
  then have "c = hyphen \<longrightarrow> r = [] \<or> hd r \<noteq> hyphen" using Cons by (simp add: singleHyphens_Cons)
  then show ?thesis using Cons by (cases r) auto
qed

lemma trimOneHyphen_step:
  assumes "singleHyphens s1"
  shows "rev (dropWhile (\<lambda>c. c = hyphen) (rev s1)) =
         (if s1 \<noteq> [] \<and> last s1 = hyphen then butlast s1 else s1)"
proof (cases "s1 = []")
  case True
  then show ?thesis by simp
next
  case False
  then have r: "rev s1 = last s1 # rev (butlast s1)"
    by (metis append_butlast_last_id rev.simps(2) rev_eq_Cons_iff rev_rev_ident)
  show ?thesis
    using dropWhile_singleHyphens [OF singleHyphens_rev [OF assms]] False
    by (simp add: r)
qed

lemma trimOneHyphen_trimHyphens:
  assumes "singleHyphens s"
  shows "trimOneHyphen s = trimHyphens s"
proof -
  let ?s1 = "case s of [] \<Rightarrow> [] | c # r \<Rightarrow> if c = hyphen then r else s"
  have d: "dropWhile (\<lambda>c. c = hyphen) s = ?s1" by (rule dropWhile_singleHyphens [OF assms])
  have "singleHyphens ?s1" using assms singleHyphens_tl [OF assms] by (cases s) auto
  from trimOneHyphen_step [OF this] show ?thesis
    unfolding trimOneHyphen_def trimHyphens_def d Let_def by simp
qed

lemma singleHyphens_trimHyphens:
  assumes "singleHyphens s"
  shows "singleHyphens (trimHyphens s)"
proof -
  let ?s1 = "case s of [] \<Rightarrow> [] | c # r \<Rightarrow> if c = hyphen then r else s"
  have d: "dropWhile (\<lambda>c. c = hyphen) s = ?s1" by (rule dropWhile_singleHyphens [OF assms])
  have s1: "singleHyphens ?s1" using assms singleHyphens_tl [OF assms] by (cases s) auto
  have "trimHyphens s = (if ?s1 \<noteq> [] \<and> last ?s1 = hyphen then butlast ?s1 else ?s1)"
    unfolding trimHyphens_def d using trimOneHyphen_step [OF s1] by simp
  then show ?thesis using s1 singleHyphens_butlast [OF s1] by simp
qed

lemma trimHyphens_ends:
  "trimHyphens s \<noteq> [] \<Longrightarrow> hd (trimHyphens s) \<noteq> hyphen \<and> last (trimHyphens s) \<noteq> hyphen"
proof -
  let ?s1 = "dropWhile (\<lambda>c. c = hyphen) s"
  let ?r = "dropWhile (\<lambda>c. c = hyphen) (rev ?s1)"
  assume ne: "trimHyphens s \<noteq> []"
  then have rne: "?r \<noteq> []" by (simp add: trimHyphens_def)
  then have "hd ?r \<noteq> hyphen" using hd_dropWhile [of "\<lambda>c. c = hyphen" "rev ?s1"] by blast
  then have l: "last (trimHyphens s) \<noteq> hyphen" using rne by (simp add: trimHyphens_def last_rev)
  have "\<exists>n. ?r = drop n (rev ?s1)"
    by (metis dropWhile_eq_drop)
  then obtain n where n: "?r = drop n (rev ?s1)" by blast
  then have "trimHyphens s = take (length ?s1 - n) ?s1"
    by (simp add: trimHyphens_def rev_drop)
  then have "hd (trimHyphens s) = hd ?s1" using ne by (metis hd_take take_eq_Nil not_gr_zero)
  moreover have "?s1 \<noteq> []"
  proof
    assume a: "?s1 = []"
    have "trimHyphens s = rev (dropWhile (\<lambda>c. c = hyphen) (rev ?s1))"
      by (simp add: trimHyphens_def)
    then have "trimHyphens s = []" unfolding a by simp
    then show False using ne by simp
  qed
  ultimately have "hd (trimHyphens s) \<noteq> hyphen"
    using hd_dropWhile [of "\<lambda>c. c = hyphen" s] by metis
  then show ?thesis using l by simp
qed

lemma trimOneHyphen_id:
  assumes "s \<noteq> [] \<Longrightarrow> hd s \<noteq> hyphen \<and> last s \<noteq> hyphen"
  shows "trimOneHyphen s = s"
  using assms by (cases s) (auto simp: trimOneHyphen_def)

lemma collapseHyphens_id: "singleHyphens s \<Longrightarrow> collapseHyphens s = s"
proof (induction s rule: collapseHyphens.induct)
  case 1
  then show ?case by simp
next
  case (2 c cs)
  have s: "singleHyphens cs" and h: "c = hyphen \<longrightarrow> cs = [] \<or> hd cs \<noteq> hyphen"
    using "2.prems" by (simp_all add: singleHyphens_Cons)
  show ?case
  proof (cases "c = hyphen")
    case True
    then have "dropWhile (\<lambda>d. d = hyphen) cs = cs" using h by (cases cs) auto
    then show ?thesis using True "2.IH"(1) s by simp
  next
    case False
    then show ?thesis using "2.IH"(2) s by simp
  qed
qed

lemma hyphenate_hd: "isSlugChar c \<Longrightarrow> hyphenate (c # cs) = c # hyphenate cs"
  by simp

lemma not_isSlugChar_hyphen: "\<not> isSlugChar hyphen"
  by (simp add: isSlugChar_def isDigit_def)

lemma singleHyphens_hyphenate: "singleHyphens (hyphenate s)"
proof (induction s rule: hyphenate.induct)
  case 1
  then show ?case by simp
next
  case (2 c cs)
  show ?case
  proof (cases "isSlugChar c")
    case True
    then have "c \<noteq> hyphen" using not_isSlugChar_hyphen by auto
    then show ?thesis using True "2.IH"(1) by (simp add: singleHyphens_Cons)
  next
    case False
    let ?r = "dropWhile (\<lambda>d. \<not> isSlugChar d) cs"
    have "hyphenate ?r = [] \<or> hd (hyphenate ?r) \<noteq> hyphen"
    proof (cases ?r)
      case Nil
      have "hyphenate [] = []" by simp
      then show ?thesis unfolding Nil by blast
    next
      case (Cons d ds)
      have "?r \<noteq> []" unfolding Cons by simp
      then have "isSlugChar (hd ?r)" using hd_dropWhile [of "\<lambda>d. \<not> isSlugChar d" cs] by blast
      then have d: "isSlugChar d" unfolding Cons by simp
      then have "d \<noteq> hyphen" using not_isSlugChar_hyphen by auto
      then have "hd (hyphenate (d # ds)) \<noteq> hyphen" using d by simp
      then show ?thesis unfolding Cons by blast
    qed
    then show ?thesis using False "2.IH"(2) by (simp add: singleHyphens_Cons)
  qed
qed

lemma removeStopwords_free: "stopwordFree prev s \<Longrightarrow> removeStopwords prev s = s"
  by (induction s arbitrary: prev) simp_all

lemma replaceAmpersand_id: "38 \<notin> set s \<Longrightarrow> replaceAmpersand s = s"
  by (induction s) (auto simp: replaceAmpersand_def)

lemma dropApostrophes_id: "39 \<notin> set s \<Longrightarrow> 8217 \<notin> set s \<Longrightarrow> dropApostrophes s = s"
  by (induction s) (auto simp: dropApostrophes_def)

lemma specials_other:
  "n \<noteq> lit ''g2'' \<Longrightarrow> n \<noteq> lit ''constructor'' \<Longrightarrow> specialsOr n = Str n"
  by (auto simp: specials_def specialsOr_def)

text \<open>The string that \<open>slugify\<close> looks up in \<^verbatim>\<open>specials\<close> is over \<^verbatim>\<open>[a-z0-9-]\<close>.\<close>

lemma collapseHyphens_subset: "set (collapseHyphens s) \<subseteq> set s"
proof (induction s rule: collapseHyphens.induct)
  case 1
  then show ?case by simp
next
  case (2 c cs)
  have "set (dropWhile (\<lambda>d. d = hyphen) cs) \<subseteq> set cs"
    using set_dropWhileD by fastforce
  then show ?case using 2 by (cases "c = hyphen") auto
qed

lemma trimOneHyphen_subset: "set (trimOneHyphen s) \<subseteq> set s"
proof -
  have b: "\<And>xs :: jsstring. set (butlast xs) \<subseteq> set xs"
    using in_set_butlastD by fastforce
  show ?thesis
  proof (cases s)
    case Nil
    then show ?thesis by (simp add: trimOneHyphen_def)
  next
    case (Cons c r)
    then show ?thesis using b [of r] b [of s]
      by (auto simp: trimOneHyphen_def Let_def split: if_splits)
  qed
qed

lemma removeStopwords_subset: "set (removeStopwords prev s) \<subseteq> set s"
proof (induction prev s rule: removeStopwords.induct)
  case (1 prev)
  then show ?case by simp
next
  case (2 prev c cs)
  show ?case
  proof (cases "matchStopword prev (c # cs)")
    case None
    then show ?thesis using "2.IH"(1) [OF None] by auto
  next
    case (Some w)
    have "set (drop (length w) (c # cs)) \<subseteq> set (c # cs)" by (rule set_drop_subset)
    then show ?thesis using Some "2.IH"(2) [OF Some] by auto
  qed
qed

lemma slugString_slugifyBase: "slugString (slugifyBase P name)"
proof -
  let ?h = "hyphenate (dropApostrophes (replaceAmpersand (toLowerCase P (latinize P name))))"
  have "set (slugifyBase P name) \<subseteq> set ?h"
    unfolding slugifyBase_def Let_def
    using trimOneHyphen_subset collapseHyphens_subset removeStopwords_subset
    by (meson subset_trans)
  then show ?thesis unfolding slugString_def using hyphenate_chars by blast
qed

section \<open>The examples evaluated\<close>

lemmas example_defs =
  exFnatic_def exKru_def exThieves_def exThievesLogo_def exItem_def exRegistry_def
  exThievesRegistry_def exBang_def exBlank_def exStale_def exDb_def regionEU_def regionKR_def
  noFetch_def exFetch_def exFnaticWebp_def

lemma cleanedNames_exFnatic: "cleanedNames exFnatic = [lit ''Fnatic'', lit ''FNATIC'']"
  by (simp add: example_defs string_defs cleanup_defs Let_def)

lemma teamSlug_exFnatic: "teamSlug ascii_platform exFnatic = lit ''fnatic''"
  by (simp add: teamSlug_def cleanedNames_exFnatic) (simp add: string_defs)

lemma cleanedNames_exKru: "cleanedNames exKru = []"
  by (simp add: example_defs cleanup_defs)

lemma teamSlug_exKru: "teamSlug ascii_platform exKru = lit ''kru''"
  by (simp add: teamSlug_def cleanedNames_exKru) (simp add: example_defs string_defs)

lemma settled_exFnatic: "settledTeam ascii_platform exFnatic"
  by (simp add: settledTeam_def cleanedNames_exFnatic) (simp add: string_defs)

lemma settled_exKru: "settledTeam ascii_platform exKru"
  by (simp add: settledTeam_def cleanedNames_exKru teamSlug_exKru) (simp add: string_defs)

lemma regionName_exItem: "regionName exItem = lit ''Fnatic''"
  by (simp add: example_defs string_defs cleanup_defs)

lemma settled_exItem: "settledItem exItem"
  by (simp add: settledItem_def regionName_exItem) (simp add: string_defs)

lemma settled_exRegistry: "settledRegistry ascii_platform exRegistry"
  by (simp add: settledRegistry_def exRegistry_def settled_exFnatic settled_exKru settled_exItem)

lemma regionEU_in: "regionEU \<in> set REGIONS"
  by (simp add: REGIONS_def regionEU_def)

lemma regionKR_in: "regionKR \<in> set REGIONS"
  by (simp add: REGIONS_def regionKR_def)

lemma exFetch_EU: "exFetch (url regionEU) = Some [lit ''Fnatic'', lit ''G2'']"
  by (simp add: exFetch_def)

lemma exFetch_KR: "exFetch (url regionKR) = None"
  by (simp add: exFetch_def regionEU_def regionKR_def)







lemma indexKey_exFnatic: "indexKey ascii_platform exFnatic = Str (lit ''1-fnatic'')"
  by (simp add: indexKey_def exFnatic_def matchLogoAt_def logoExtensions_def isLineTerminator_def orElse_def Let_def)

lemma indexKey_exFnaticWebp: "indexKey ascii_platform exFnaticWebp = Str (lit ''1-fnatic'')"
  by (simp add: indexKey_def exFnaticWebp_def matchLogoAt_def logoExtensions_def isLineTerminator_def orElse_def Let_def)

lemma mergeTeam_empty_index:
  "mergeTeam P [] nm =
     ([(slugify P nm, \<lparr> slug = None, names = Some [nm], logo = Some (logoOf (slugText (slugify P nm))) \<rparr>)],
      \<lparr> slug = None, names = Some [nm], logo = Some (logoOf (slugText (slugify P nm))) \<rparr>)"
  by (simp add: mergeTeam_def Let_def)

lemmas slugify_defs =
  slugify_def slugifyBase_def specialsOr_def latinize_def replaceAmpersand_def dropApostrophes_def trimOneHyphen_def
  matchStopword_def wordBoundary_def stopwords_def isWordChar_def specials_def

lemma slugify_G2: "slugify ascii_platform (lit ''G2'') = Str (lit ''g2-esports'')"
  by (simp add: slugify_defs string_defs Let_def)

lemma toSlug_G2: "toSlug ascii_platform (lit ''G2'') = lit ''g2''"
  by (simp add: string_defs Let_def)

lemma slugify_kru: "slugify ascii_platform (lit ''KRU Esports'') = Str (lit ''kru'')"
  by (simp add: slugify_defs string_defs Let_def)

lemma lowered_GenG: "lowered ascii_platform (lit ''Gen.G'') = lit ''gen.g''"
  by (simp add: lowered_def latinize_def ascii_platform_def asciiLower_def)

lemma toSlug_GenG: "toSlug ascii_platform (lit ''Gen.G'') = lit ''gen-g''"
  by (simp add: string_defs Let_def)

lemma stopwordFree_GenG: "stopwordFree None (lit ''gen-g'')"
  by (simp add: matchStopword_def wordBoundary_def stopwords_def isWordChar_def isDigit_def)

lemma toSlug_kru: "toSlug ascii_platform (lit ''KRU Esports'') = lit ''kru-esports''"
  by (simp add: string_defs Let_def)

lemma slugify_Constructor: "slugify ascii_platform (lit ''Constructor'') = ObjectFunction"
  by (simp add: slugify_defs string_defs Let_def)

lemma slugify_Fnatic: "slugify ascii_platform (lit ''Fnatic'') = Str (lit ''fnatic'')"
  by (simp add: slugify_defs string_defs Let_def)

lemma indexKey_exCtor: "indexKey ascii_platform exCtor = ObjectFunction"
  using slugify_Constructor by (simp add: indexKey_def exCtor_def orElse_def firstName_def Let_def)

lemma indexKey_exCtorLogo:
  "indexKey ascii_platform exCtorLogo = Str (lit ''function Object() { [native code] }'')"
  by (simp add: indexKey_def exCtorLogo_def matchLogoAt_def logoExtensions_def isLineTerminator_def orElse_def Let_def)

lemma buildSlugIndex_exCtorDb:
  "buildSlugIndex ascii_platform [exCtor, exCtorLogo] =
     [(ObjectFunction, exCtor), (Str (lit ''function Object() { [native code] }''), exCtorLogo)]"
  by (simp add: buildSlugIndex_def buildSlugStep_def indexKey_exCtor indexKey_exCtorLogo Let_def)

lemma failed_regions_empty:
  "foldl (\<lambda>rs rg. if map_of rs (code rg) = None then AList.update (code rg) [] rs else rs) [] REGIONS =
     emptyRegions"
  by (simp add: REGIONS_def emptyRegions_def)

lemma fetchedNames_exCtorFetch:
  "fetchedNames exCtorFetch REGIONS = [lit ''Fnatic'', lit ''Constructor'']"
  by (simp add: fetchedNames_def REGIONS_def exCtorFetch_def regionEU_def)

lemma fetchedNames_exFetch:
  "fetchedNames exFetch REGIONS = [lit ''Fnatic'', lit ''G2'']"
  by (simp add: fetchedNames_def REGIONS_def exFetch_def regionEU_def)

lemma buildSlugIndex_exFnatic:
  "buildSlugIndex ascii_platform [exFnatic] = [(Str (lit ''1-fnatic''), exFnatic)]"
  by (simp add: buildSlugIndex_def buildSlugStep_def indexKey_exFnatic Let_def)

lemma failed_regions_exDb:
  "foldl (\<lambda>rs rg. if map_of rs (code rg) = None then AList.update (code rg) [] rs else rs)
     [(lit ''KR'', [exStale])] REGIONS =
   [(lit ''KR'', [exStale]), (lit ''EU'', []), (lit ''NA'', []), (lit ''BR'', []), (lit ''AP'', []),
    (lit ''CN'', []), (lit ''JP'', []), (lit ''LAS'', []), (lit ''LAN'', []), (lit ''OCE'', []),
    (lit ''MENA'', []), (lit ''GC'', []), (lit ''CG'', [])]"
  by (simp add: REGIONS_def)

section \<open>The claims\<close>

text \<open>
  C1, amended. Running \<open>cleanup\<close> on its own output gives the same teams and regions
  when the registry is settled: \<open>stripRankPrefix\<close> leaves every cleaned name as it is,
  and the slug of a team without names comes back from the logo path written for it. The
  engine is assumed regular. Without this the second run changes the output:
  \<open>stripRankPrefix\<close> takes the leading number of a cleaned name such as
  \<^verbatim>\<open>100 Thieves\<close> for a rank.
\<close>

theorem cleanup_idempotent:
  assumes "regularPlatform P" and "settledRegistry P json"
  shows "cleanup P (cleanup P json) = cleanup P json"
proof -
  have "cleanTeamsArray P (cleanTeamsArray P (case teams json of None \<Rightarrow> [] | Some ts \<Rightarrow> ts)) =
        cleanTeamsArray P (case teams json of None \<Rightarrow> [] | Some ts \<Rightarrow> ts)"
    using assms by (intro cleanTeamsArray_again) (simp_all add: settledRegistry_def regularPlatform_def)
  moreover have "cleanRegions P (cleanRegions P (regions json)) = cleanRegions P (regions json)"
    using assms by (intro cleanRegions_idem) (simp_all add: settledRegistry_def)
  ultimately show ?thesis by (simp add: cleanup_def)
qed

theorem cleanup_idempotent_witness:
  "regularPlatform ascii_platform \<and> settledRegistry ascii_platform exRegistry \<and>
   cleanup ascii_platform (cleanup ascii_platform exRegistry) = cleanup ascii_platform exRegistry"
  using regular_ascii_platform settled_exRegistry
    cleanup_idempotent [OF regular_ascii_platform settled_exRegistry]
  by blast

theorem cleanup_twice_counterexample:
  "teams (cleanup ascii_platform (cleanup ascii_platform exThievesRegistry)) \<noteq>
   teams (cleanup ascii_platform exThievesRegistry)"
  by (simp add: example_defs string_defs cleanup_defs Let_def)

text \<open>
  C2, amended. The two slug functions do not agree on every name: \<open>slugify\<close> also
  replaces \<^verbatim>\<open>&\<close>, deletes apostrophes, removes the stop words and applies the table
  \<^verbatim>\<open>specials\<close>. They return the same slug for a name that both bring to the same
  lower-case string without diacritics, in which there is no \<^verbatim>\<open>&\<close> and no apostrophe,
  when the expression of the stop words matches nowhere in the slug and the slug is
  neither \<^verbatim>\<open>g2\<close>, the one key that \<^verbatim>\<open>specials\<close> maps to another string, nor
  \<^verbatim>\<open>constructor\<close>, the name that the object \<^verbatim>\<open>specials\<close> inherits.
\<close>

theorem slugify_agrees_with_toSlug:
  assumes same: "lowered P name =
      toLowerCase P (filter (\<lambda>c. \<not> (768 \<le> c \<and> c \<le> 879)) (normalizeNFKD P name))"
    and plain: "38 \<notin> set (lowered P name) \<and> 39 \<notin> set (lowered P name) \<and> 8217 \<notin> set (lowered P name)"
    and free: "stopwordFree None (toSlug P name)"
    and other: "toSlug P name \<noteq> lit ''g2''"
    and own: "toSlug P name \<noteq> lit ''constructor''"
  shows "slugify P name = Str (toSlug P name)"
proof -
  let ?L = "lowered P name"
  have t: "toSlug P name = trimHyphens (hyphenate ?L)"
    by (simp add: toSlug_def same Let_def)
  have "dropApostrophes (replaceAmpersand ?L) = ?L"
    using plain by (simp add: replaceAmpersand_id dropApostrophes_id)
  then have "trimOneHyphen (collapseHyphens (hyphenate (dropApostrophes (replaceAmpersand ?L)))) =
             trimOneHyphen (collapseHyphens (hyphenate ?L))" by simp
  also have "\<dots> = trimOneHyphen (hyphenate ?L)"
    by (simp add: collapseHyphens_id singleHyphens_hyphenate)
  also have "\<dots> = toSlug P name"
    by (simp add: t trimOneHyphen_trimHyphens singleHyphens_hyphenate)
  finally have n0: "trimOneHyphen (collapseHyphens (hyphenate (dropApostrophes (replaceAmpersand ?L)))) =
                    toSlug P name" .
  have n1: "removeStopwords None (toSlug P name) = toSlug P name"
    by (rule removeStopwords_free [OF free])
  have "collapseHyphens (toSlug P name) = toSlug P name"
    unfolding t by (intro collapseHyphens_id singleHyphens_trimHyphens singleHyphens_hyphenate)
  moreover have "trimOneHyphen (toSlug P name) = toSlug P name"
    unfolding t using trimHyphens_ends [of "hyphenate ?L"] by (intro trimOneHyphen_id) blast
  ultimately have n2: "trimOneHyphen (collapseHyphens (toSlug P name)) = toSlug P name" by simp
  have "slugifyBase P name = toSlug P name"
    unfolding slugifyBase_def Let_def lowered_def [symmetric] n0 n1 n2 ..
  then show ?thesis using specials_other [OF other own] by (simp add: slugify_def)
qed

theorem slugify_agrees_with_toSlug_witness:
  "lowered ascii_platform (lit ''Gen.G'') =
     toLowerCase ascii_platform (filter (\<lambda>c. \<not> (768 \<le> c \<and> c \<le> 879)) (normalizeNFKD ascii_platform (lit ''Gen.G''))) \<and>
   38 \<notin> set (lowered ascii_platform (lit ''Gen.G'')) \<and>
   39 \<notin> set (lowered ascii_platform (lit ''Gen.G'')) \<and>
   8217 \<notin> set (lowered ascii_platform (lit ''Gen.G'')) \<and>
   stopwordFree None (toSlug ascii_platform (lit ''Gen.G'')) \<and>
   toSlug ascii_platform (lit ''Gen.G'') \<noteq> lit ''g2'' \<and>
   toSlug ascii_platform (lit ''Gen.G'') \<noteq> lit ''constructor'' \<and>
   slugify ascii_platform (lit ''Gen.G'') = Str (lit ''gen-g'')"
proof -
  have a: "lowered ascii_platform (lit ''Gen.G'') =
     toLowerCase ascii_platform (filter (\<lambda>c. \<not> (768 \<le> c \<and> c \<le> 879)) (normalizeNFKD ascii_platform (lit ''Gen.G'')))"
    by (simp add: lowered_def latinize_def ascii_platform_def asciiLower_def)
  have b: "38 \<notin> set (lowered ascii_platform (lit ''Gen.G'')) \<and>
           39 \<notin> set (lowered ascii_platform (lit ''Gen.G'')) \<and>
           8217 \<notin> set (lowered ascii_platform (lit ''Gen.G''))"
    by (simp only: lowered_GenG) simp
  have c: "stopwordFree None (toSlug ascii_platform (lit ''Gen.G''))"
    by (simp only: toSlug_GenG stopwordFree_GenG)
  have d: "toSlug ascii_platform (lit ''Gen.G'') \<noteq> lit ''g2''"
    by (simp only: toSlug_GenG) simp
  have e: "toSlug ascii_platform (lit ''Gen.G'') \<noteq> lit ''constructor''"
    by (simp only: toSlug_GenG) simp
  have "slugify ascii_platform (lit ''Gen.G'') = Str (lit ''gen-g'')"
    using slugify_agrees_with_toSlug [OF a b c d e] by (simp only: toSlug_GenG)
  then show ?thesis using a b c d e by blast
qed

theorem toSlug_slugify_counterexample:
  "slugify ascii_platform (lit ''G2'') \<noteq> Str (toSlug ascii_platform (lit ''G2'')) \<and>
   slugify ascii_platform (lit ''KRU Esports'') \<noteq> Str (toSlug ascii_platform (lit ''KRU Esports''))"
  by (simp only: toSlug_G2 slugify_G2 toSlug_kru slugify_kru) simp

text \<open>
  C3, amended. \<open>mergeTeam\<close> does not strip the rank prefix and never fails: it files the
  raw name under \<open>slugify\<close> of the raw name. The entry it returns is the one the index holds
  for that slug afterwards, the other keys of the index are unchanged, its logo path is
  that of the slug read as a string and its names are, without duplicates, the raw name and the names the index had
  for the slug.
\<close>

theorem mergeTeam_stores_raw_name:
  "map_of (fst (mergeTeam P bySlug nm)) = (map_of bySlug)(slugify P nm \<mapsto> snd (mergeTeam P bySlug nm)) \<and>
   logo (snd (mergeTeam P bySlug nm)) = Some (logoOf (slugText (slugify P nm))) \<and>
   (\<exists>ns. names (snd (mergeTeam P bySlug nm)) = Some ns \<and> distinct ns \<and>
      set ns = insert nm (case map_of bySlug (slugify P nm) of
                            None \<Rightarrow> {}
                          | Some existing \<Rightarrow> set (case names existing of None \<Rightarrow> [] | Some old \<Rightarrow> old)))"
proof -
  have "\<exists>ns. names (snd (mergeTeam P bySlug nm)) = Some ns \<and> distinct ns \<and>
      set ns = insert nm (case map_of bySlug (slugify P nm) of
                            None \<Rightarrow> {}
                          | Some existing \<Rightarrow> set (case names existing of None \<Rightarrow> [] | Some old \<Rightarrow> old))"
  proof (cases "map_of bySlug (slugify P nm)")
    case None
    then show ?thesis by (simp add: mergeTeam_def Let_def)
  next
    case (Some existing)
    have "distinct (sortBy (localeCompare P) (uniq ((case names existing of None \<Rightarrow> [] | Some ns \<Rightarrow> ns) @ [nm])))"
      using distinct_map_sortBy [of "\<lambda>x. x" "localeCompare P"] by (simp add: distinct_uniq)
    then show ?thesis using Some
      by (simp add: mergeTeam_def Let_def set_sortBy set_uniq)
  qed
  then show ?thesis using mergeTeam_result [of P bySlug nm] mergeTeam_logo [of P bySlug nm] by blast
qed

theorem mergeTeam_stores_raw_name_witness:
  "map_of (fst (mergeTeam ascii_platform [] (lit ''7 Cloud9''))) (slugify ascii_platform (lit ''7 Cloud9'')) =
     Some (snd (mergeTeam ascii_platform [] (lit ''7 Cloud9''))) \<and>
   (\<exists>ns. names (snd (mergeTeam ascii_platform [] (lit ''7 Cloud9''))) = Some ns \<and> set ns = {lit ''7 Cloud9''})"
  using mergeTeam_stores_raw_name [of ascii_platform "[]" "lit ''7 Cloud9''"]
  by auto

theorem mergeTeam_raw_name_counterexample:
  "stripRankPrefix (lit ''7 Cloud9'') = lit ''Cloud9'' \<and>
   names (snd (mergeTeam ascii_platform [] (lit ''7 Cloud9''))) = Some [lit ''7 Cloud9''] \<and>
   stripRankPrefix (lit ''7.'') = [] \<and>
   fst (mergeTeam ascii_platform [] (lit ''7.'')) \<noteq> []"
  by (simp add: mergeTeam_empty_index) (simp add: string_defs)

text \<open>
  C4. Slug uniqueness, that after cleanup or expand no two entries of \<^verbatim>\<open>teams\<close> share a
  slug, fails in expand for a team named \<^verbatim>\<open>Constructor\<close>. The key of that team in the
  index is the function that \<^verbatim>\<open>specials[n]\<close> inherits; written out it is the text
  \<^verbatim>\<open>function Object() { [native code] }\<close>, which is also the key of a team whose logo has
  that stem. With every fetch failing, the run on these two teams writes both of them, with
  one logo path.
\<close>

theorem expand_duplicate_logo:
  "expand ascii_platform noFetch exCtorDb =
     Inr \<lparr> version = Some 1,
           teams = Some
             [\<lparr> slug = None, names = Some [lit ''Constructor''],
                logo = Some (lit ''logos/function Object() { [native code] }.png'') \<rparr>,
              \<lparr> slug = None, names = None,
                logo = Some (lit ''logos/function Object() { [native code] }.png'') \<rparr>],
           regions = Some emptyRegions \<rparr>"
proof -
  have loop: "expandLoop ascii_platform noFetch exCtorDb =
      ([(ObjectFunction, exCtor), (Str (lit ''function Object() { [native code] }''), exCtorLogo)],
       emptyRegions)"
    using expandLoop_failed [of noFetch ascii_platform exCtorDb]
      buildSlugIndex_exCtorDb failed_regions_empty
    by (simp add: noFetch_def exCtorDb_def)
  have quiet: "\<not> sortThrows
      [(ObjectFunction, exCtor), (Str (lit ''function Object() { [native code] }''), exCtorLogo)]"
    by (simp add: sortThrows_def)
  have rebuild: "rebuildTeams ascii_platform (textKeys
      [(ObjectFunction, exCtor), (Str (lit ''function Object() { [native code] }''), exCtorLogo)]) =
      [\<lparr> slug = None, names = Some [lit ''Constructor''],
         logo = Some (lit ''logos/function Object() { [native code] }.png'') \<rparr>,
       \<lparr> slug = None, names = None,
         logo = Some (lit ''logos/function Object() { [native code] }.png'') \<rparr>]"
    by (simp add: rebuildTeams_def textKeys_def slugText_def sortBy_def compareKeys_def
        ascii_platform_def logoOf_def exCtor_def exCtorLogo_def)
  show ?thesis
    unfolding expand_cases loop fst_conv snd_conv using quiet rebuild
    by (simp add: exCtorDb_def)
qed

text \<open>
  C5, amended. The logo path is \<^verbatim>\<open>logos/<slug>.png\<close> for every team of the cleanup (by the
  slug it is collected under), every entry of a cleaned region list and every team of the
  rebuild (by its key). In a run of expand that writes a registry, every entry of the index
  whose key is a string is written as a team with the logo path of that key, and in a region
  whose fetch succeeded the entry of each fetched name whose slug is a string has that slug
  and its logo path. The entries of a region whose fetch failed are those of the file that
  was read: the run with every fetch failing writes the entry of Korea with the slug
  \<^verbatim>\<open>t1\<close> and the logo \<^verbatim>\<open>logos/1-t1.png\<close>.
\<close>

theorem logo_slug_lockstep:
  "(\<forall>(k, e) \<in> set (cleanTeamsEntries P ts). logo e = Some (logoOf k)) \<and>
   (\<forall>m'. cleanRegions P rs = Some m' \<longrightarrow>
      (\<forall>(rg, l) \<in> set m'. \<forall>e \<in> set l. \<exists>s. slug e = Some s \<and> logo e = Some (logoOf s))) \<and>
   list_all2 (\<lambda>(k, e) t. logo t = Some (logoOf k)) (sortBy (compareKeys P) bySlug) (rebuildTeams P bySlug) \<and>
   (\<forall>out. expand P g db = Inr out \<longrightarrow>
      (\<exists>T. teams out = Some T \<and>
         (\<forall>k e. (Str k, e) \<in> set (fst (expandLoop P g db)) \<longrightarrow>
            (\<exists>t \<in> set T. names t = names e \<and> logo t = Some (logoOf k)))) \<and>
      (\<forall>r \<in> set REGIONS. \<forall>nms. g (url r) = Some nms \<longrightarrow>
         (\<exists>m v. regions out = Some m \<and> map_of m (code r) = Some v \<and>
            list_all2 (\<lambda>nm e. \<forall>s. slugify P nm = Str s \<longrightarrow>
                          slug e = Some s \<and> logo e = Some (logoOf s)) nms v)))"
proof (intro conjI)
  show "\<forall>(k, e) \<in> set (cleanTeamsEntries P ts). logo e = Some (logoOf k)"
    using cleanTeamsEntries_logo [of _ _ P ts] by auto
  show "\<forall>m'. cleanRegions P rs = Some m' \<longrightarrow>
      (\<forall>(rg, l) \<in> set m'. \<forall>e \<in> set l. \<exists>s. slug e = Some s \<and> logo e = Some (logoOf s))"
  proof (intro allI impI)
    fix m' assume a: "cleanRegions P rs = Some m'"
    then have "\<forall>(rg, l) \<in> set m'. \<exists>l0. l = cleanRegionList P {} [] l0"
      by (cases rs) (auto simp: cleanRegions_def)
    then show "\<forall>(rg, l) \<in> set m'. \<forall>e \<in> set l. \<exists>s. slug e = Some s \<and> logo e = Some (logoOf s)"
      using cleanRegionList_entries [of _ P "{}"] by (fastforce simp: regionEntry_def)
  qed
  show "list_all2 (\<lambda>(k, e) t. logo t = Some (logoOf k)) (sortBy (compareKeys P) bySlug) (rebuildTeams P bySlug)"
    by (simp add: rebuildTeams_def list_all2_map2 list_all2_same split_def)
  show "\<forall>out. expand P g db = Inr out \<longrightarrow>
      (\<exists>T. teams out = Some T \<and>
         (\<forall>k e. (Str k, e) \<in> set (fst (expandLoop P g db)) \<longrightarrow>
            (\<exists>t \<in> set T. names t = names e \<and> logo t = Some (logoOf k)))) \<and>
      (\<forall>r \<in> set REGIONS. \<forall>nms. g (url r) = Some nms \<longrightarrow>
         (\<exists>m v. regions out = Some m \<and> map_of m (code r) = Some v \<and>
            list_all2 (\<lambda>nm e. \<forall>s. slugify P nm = Str s \<longrightarrow>
                          slug e = Some s \<and> logo e = Some (logoOf s)) nms v))"
  proof (intro allI impI conjI)
    fix out assume out: "expand P g db = Inr out"
    let ?T = "rebuildTeams P (textKeys (fst (expandLoop P g db)))"
    have "\<forall>k e. (Str k, e) \<in> set (fst (expandLoop P g db)) \<longrightarrow>
            (\<exists>t \<in> set ?T. names t = names e \<and> logo t = Some (logoOf k))"
    proof (intro allI impI)
      fix k e assume "(Str k, e) \<in> set (fst (expandLoop P g db))"
      then have "\<lparr> slug = None, names = names e, logo = Some (logoOf k) \<rparr> \<in> set ?T"
        by (intro rebuildTeams_member textKeys_member)
      then show "\<exists>t \<in> set ?T. names t = names e \<and> logo t = Some (logoOf k)"
        by (rule bexI [rotated]) simp
    qed
    then show "\<exists>T. teams out = Some T \<and>
         (\<forall>k e. (Str k, e) \<in> set (fst (expandLoop P g db)) \<longrightarrow>
            (\<exists>t \<in> set T. names t = names e \<and> logo t = Some (logoOf k)))"
      using expand_Inr(1) [OF out] by blast
    show "\<forall>r \<in> set REGIONS. \<forall>nms. g (url r) = Some nms \<longrightarrow>
         (\<exists>m v. regions out = Some m \<and> map_of m (code r) = Some v \<and>
            list_all2 (\<lambda>nm e. \<forall>s. slugify P nm = Str s \<longrightarrow>
                          slug e = Some s \<and> logo e = Some (logoOf s)) nms v)"
    proof (intro ballI allI impI)
      fix r nms assume r: "r \<in> set REGIONS" and f: "g (url r) = Some nms"
      from expand_region_outcome [OF r out] obtain m v where
        m: "regions out = Some m" and v: "map_of m (code r) = Some v"
        and fr: "list_all2 (freshEntry P) nms v"
        using f by (auto simp: regionOutcome_def)
      have "list_all2 (\<lambda>nm e. \<forall>s. slugify P nm = Str s \<longrightarrow>
                          slug e = Some s \<and> logo e = Some (logoOf s)) nms v"
        using fr by (rule list_all2_mono) (simp add: freshEntry_def jsonSlug_def slugText_def)
      then show "\<exists>m v. regions out = Some m \<and> map_of m (code r) = Some v \<and>
            list_all2 (\<lambda>nm e. \<forall>s. slugify P nm = Str s \<longrightarrow>
                          slug e = Some s \<and> logo e = Some (logoOf s)) nms v"
        using m v by blast
    qed
  qed
qed

theorem logo_slug_lockstep_witness:
  "regionEU \<in> set REGIONS \<and> exFetch (url regionEU) = Some [lit ''Fnatic'', lit ''G2''] \<and>
   (\<exists>out T m v. expand ascii_platform exFetch exDb = Inr out \<and> teams out = Some T \<and>
      (\<exists>t \<in> set T. logo t = Some (logoOf (lit ''1-fnatic''))) \<and>
      regions out = Some m \<and> map_of m (code regionEU) = Some v \<and>
      list_all2 (\<lambda>s e. slug e = Some s \<and> logo e = Some (logoOf s)) [lit ''fnatic'', lit ''g2-esports''] v) \<and>
   list_all2 (\<lambda>(k, e) t. logo t = Some (logoOf k))
     (sortBy (compareKeys ascii_platform) [(lit ''kru'', exKru)])
     (rebuildTeams ascii_platform [(lit ''kru'', exKru)])"
proof -
  note inst = logo_slug_lockstep [of ascii_platform "[exFnatic]" None "[(lit ''kru'', exKru)]" exFetch exDb]
  have "ObjectFunction \<notin> indexKey ascii_platform ` set (case teams exDb of None \<Rightarrow> [] | Some ts \<Rightarrow> ts)"
    by (simp add: exDb_def indexKey_exFnatic)
  moreover have "ObjectFunction \<notin> slugify ascii_platform ` set (fetchedNames exFetch REGIONS)"
    unfolding fetchedNames_exFetch using slugify_Fnatic slugify_G2 by simp
  ultimately obtain out where out: "expand ascii_platform exFetch exDb = Inr out"
    using expand_writes [of ascii_platform exDb exFetch] by blast
  have "Str (lit ''1-fnatic'') \<in> fst ` set (fst (expandLoop ascii_platform exFetch exDb))"
    unfolding expandLoop_keys by (simp add: exDb_def indexKey_exFnatic)
  then obtain e where e: "(Str (lit ''1-fnatic''), e) \<in> set (fst (expandLoop ascii_platform exFetch exDb))"
    by force
  from inst out e obtain T where T: "teams out = Some T"
    and t: "\<exists>t \<in> set T. logo t = Some (logoOf (lit ''1-fnatic''))"
    by blast
  from inst out regionEU_in exFetch_EU obtain m v where m: "regions out = Some m"
    and v: "map_of m (code regionEU) = Some v"
    and l: "list_all2 (\<lambda>nm e. \<forall>s. slugify ascii_platform nm = Str s \<longrightarrow>
                          slug e = Some s \<and> logo e = Some (logoOf s)) [lit ''Fnatic'', lit ''G2''] v"
    by blast
  have "list_all2 (\<lambda>s e. slug e = Some s \<and> logo e = Some (logoOf s)) [lit ''fnatic'', lit ''g2-esports''] v"
    using l slugify_Fnatic slugify_G2 by (auto simp: list_all2_Cons1)
  then have "\<exists>out T m v. expand ascii_platform exFetch exDb = Inr out \<and> teams out = Some T \<and>
      (\<exists>t \<in> set T. logo t = Some (logoOf (lit ''1-fnatic''))) \<and>
      regions out = Some m \<and> map_of m (code regionEU) = Some v \<and>
      list_all2 (\<lambda>s e. slug e = Some s \<and> logo e = Some (logoOf s)) [lit ''fnatic'', lit ''g2-esports''] v"
    using out T t m v by blast
  moreover have "list_all2 (\<lambda>(k, e) t. logo t = Some (logoOf k))
     (sortBy (compareKeys ascii_platform) [(lit ''kru'', exKru)])
     (rebuildTeams ascii_platform [(lit ''kru'', exKru)])"
    using inst by blast
  ultimately show ?thesis using regionEU_in exFetch_EU by blast
qed

theorem expand_stale_region_counterexample:
  "expand ascii_platform noFetch exDb =
     Inr \<lparr> version = Some 1,
           teams = Some [\<lparr> slug = None, names = Some [lit ''2. Fnatic'', lit ''FNATIC''],
                          logo = Some (lit ''logos/1-fnatic.png'') \<rparr>],
           regions = Some
             [(lit ''KR'', [exStale]), (lit ''EU'', []), (lit ''NA'', []), (lit ''BR'', []),
              (lit ''AP'', []), (lit ''CN'', []), (lit ''JP'', []), (lit ''LAS'', []),
              (lit ''LAN'', []), (lit ''OCE'', []), (lit ''MENA'', []), (lit ''GC'', []),
              (lit ''CG'', [])] \<rparr> \<and>
   slug exStale = Some (lit ''t1'') \<and> logo exStale \<noteq> Some (logoOf (lit ''t1''))"
proof -
  have loop: "expandLoop ascii_platform noFetch exDb =
      ([(Str (lit ''1-fnatic''), exFnatic)],
       [(lit ''KR'', [exStale]), (lit ''EU'', []), (lit ''NA'', []), (lit ''BR'', []),
        (lit ''AP'', []), (lit ''CN'', []), (lit ''JP'', []), (lit ''LAS'', []),
        (lit ''LAN'', []), (lit ''OCE'', []), (lit ''MENA'', []), (lit ''GC'', []),
        (lit ''CG'', [])])"
    using expandLoop_failed [of noFetch ascii_platform exDb]
      buildSlugIndex_exFnatic failed_regions_exDb
    by (simp add: noFetch_def exDb_def)
  have quiet: "\<not> sortThrows [(Str (lit ''1-fnatic''), exFnatic)]"
    by (simp add: sortThrows_def)
  have rebuild: "rebuildTeams ascii_platform (textKeys [(Str (lit ''1-fnatic''), exFnatic)]) =
      [\<lparr> slug = None, names = Some [lit ''2. Fnatic'', lit ''FNATIC''],
         logo = Some (lit ''logos/1-fnatic.png'') \<rparr>]"
    by (simp add: rebuildTeams_def textKeys_def slugText_def sortBy_def logoOf_def exFnatic_def)
  have "expand ascii_platform noFetch exDb =
     Inr \<lparr> version = Some 1,
           teams = Some [\<lparr> slug = None, names = Some [lit ''2. Fnatic'', lit ''FNATIC''],
                          logo = Some (lit ''logos/1-fnatic.png'') \<rparr>],
           regions = Some
             [(lit ''KR'', [exStale]), (lit ''EU'', []), (lit ''NA'', []), (lit ''BR'', []),
              (lit ''AP'', []), (lit ''CN'', []), (lit ''JP'', []), (lit ''LAS'', []),
              (lit ''LAN'', []), (lit ''OCE'', []), (lit ''MENA'', []), (lit ''GC'', []),
              (lit ''CG'', [])] \<rparr>"
    unfolding expand_cases loop fst_conv snd_conv using quiet rebuild
    by (simp add: exDb_def)
  moreover have "slug exStale = Some (lit ''t1'') \<and> logo exStale \<noteq> Some (logoOf (lit ''t1''))"
    by (simp add: exStale_def logoOf_def)
  ultimately show ?thesis by simp
qed




text \<open>
  C7, amended. The teams of the cleanup are in ascending order of their slugs under
  \<^verbatim>\<open>localeCompare\<close>, assumed consistent; this is the order by code units when
  \<^verbatim>\<open>localeCompare\<close> orders strings over \<^verbatim>\<open>[a-z0-9-]\<close> so. The teams rebuilt by expand are in
  ascending order of the keys of the index under \<^verbatim>\<open>localeCompare\<close>. Running the cleanup on
  its own output gives the same list when the teams are settled.
\<close>

theorem cleanTeams_sorted_stable:
  assumes "consistentCompare (localeCompare P)"
  shows "map logo (cleanTeamsArray P ts) = map (\<lambda>k. Some (logoOf k)) (map fst (cleanTeamsEntries P ts)) \<and>
         sorted_wrt (\<lambda>a b. localeCompare P a b \<le> 0) (map fst (cleanTeamsEntries P ts)) \<and>
         (codeUnitOrderOnSlugs P \<longrightarrow>
            sorted_wrt (\<lambda>a b. codeUnitCompare a b \<le> 0) (map fst (cleanTeamsEntries P ts))) \<and>
         map logo (rebuildTeams P bySlug) =
           map (\<lambda>k. Some (logoOf k)) (map fst (sortBy (compareKeys P) bySlug)) \<and>
         sorted_wrt (\<lambda>a b. localeCompare P a b \<le> 0) (map fst (sortBy (compareKeys P) bySlug)) \<and>
         ((\<forall>t \<in> set ts. settledTeam P t) \<longrightarrow>
            cleanTeamsArray P (cleanTeamsArray P ts) = cleanTeamsArray P ts)"
  using cleanTeamsArray_logos [of P ts] cleanTeamsEntries_sorted [OF assms, of ts]
    cleanTeamsEntries_codeUnits [OF assms, of ts]
    rebuildTeams_logos [of P bySlug] sorted_index [OF assms, of bySlug]
    cleanTeamsArray_again [OF assms, of ts]
  by blast

theorem cleanTeams_sorted_stable_witness:
  "consistentCompare (localeCompare ascii_platform) \<and> codeUnitOrderOnSlugs ascii_platform \<and>
   settledTeam ascii_platform exFnatic \<and> settledTeam ascii_platform exKru \<and>
   sorted_wrt (\<lambda>a b. codeUnitCompare a b \<le> 0) (map fst (cleanTeamsEntries ascii_platform [exFnatic, exKru])) \<and>
   cleanTeamsArray ascii_platform (cleanTeamsArray ascii_platform [exFnatic, exKru]) =
     cleanTeamsArray ascii_platform [exFnatic, exKru]"
  using cleanTeams_sorted_stable [OF consistent_ascii_platform, of "[exFnatic, exKru]" "[]"]
    consistent_ascii_platform ascii_codeUnitOrder settled_exFnatic settled_exKru
  by simp

theorem cleanTeams_rerun_counterexample:
  "cleanTeamsArray ascii_platform (cleanTeamsArray ascii_platform [exThievesLogo]) \<noteq>
   cleanTeamsArray ascii_platform [exThievesLogo]"
  by (simp add: example_defs string_defs cleanup_defs Let_def)

text \<open>
  C8. Partial failure isolation in expand, that a region whose fetch succeeded holds the
  fresh data in the output while a region whose fetch failed keeps its list, fails when a
  fetched name reduces to \<^verbatim>\<open>constructor\<close>. The fetch of Europe gives the names
  \<^verbatim>\<open>Fnatic\<close> and \<^verbatim>\<open>Constructor\<close> and the fetch of Korea fails; the index, which has
  the team of the registry first, gets the function as a later key, the final sort throws a
  TypeError, and no registry is written.
\<close>

theorem expand_throws_on_constructor:
  "exCtorFetch (url regionEU) = Some [lit ''Fnatic'', lit ''Constructor''] \<and>
   exCtorFetch (url regionKR) = None \<and>
   expand ascii_platform exCtorFetch exDb = Inl TypeError"
proof -
  obtain zs where zs: "map fst (fst (expandLoop ascii_platform exCtorFetch exDb)) =
      Str (lit ''1-fnatic'') # zs"
    using expandLoop_prefix [of ascii_platform exCtorFetch exDb] buildSlugIndex_exFnatic
    by (auto simp: exDb_def)
  have "ObjectFunction \<in> slugify ascii_platform ` set (fetchedNames exCtorFetch REGIONS)"
    unfolding fetchedNames_exCtorFetch using slugify_Constructor by (simp add: image_iff)
  then have "ObjectFunction \<in> fst ` set (fst (expandLoop ascii_platform exCtorFetch exDb))"
    unfolding expandLoop_keys by (rule UnI2)
  then have "ObjectFunction \<in> set (map fst (fst (expandLoop ascii_platform exCtorFetch exDb)))"
    by simp
  then have "ObjectFunction \<in> set zs" unfolding zs by simp
  then have "sortThrows (fst (expandLoop ascii_platform exCtorFetch exDb))"
    by (rule sortThrows_later [OF zs])
  then have "expand ascii_platform exCtorFetch exDb = Inl TypeError"
    by (simp add: expand_cases)
  moreover have "exCtorFetch (url regionEU) = Some [lit ''Fnatic'', lit ''Constructor'']"
    by (simp add: exCtorFetch_def)
  moreover have "exCtorFetch (url regionKR) = None"
    by (simp add: exCtorFetch_def regionEU_def regionKR_def)
  ultimately show ?thesis by simp
qed

text \<open>
  C9. \<open>buildSlugIndex\<close> keeps, for each key, the first team with that key. A team whose key
  an earlier team has is dropped: the index, and with it the whole output of expand, is
  what it would be without that team.
\<close>

theorem buildSlugIndex_keeps_first:
  "map_of (buildSlugIndex P ts) k = List.find (\<lambda>t. indexKey P t = k) ts \<and>
   ((\<exists>t1 \<in> set ts. indexKey P t1 = indexKey P t) \<longrightarrow>
      buildSlugIndex P (ts @ [t]) = buildSlugIndex P ts \<and>
      expand P g (db \<lparr> teams := Some (ts @ [t]) \<rparr>) = expand P g (db \<lparr> teams := Some ts \<rparr>))"
proof (intro conjI impI)
  show "map_of (buildSlugIndex P ts) k = List.find (\<lambda>t. indexKey P t = k) ts"
    by (rule buildSlugIndex_first)
next
  assume "\<exists>t1 \<in> set ts. indexKey P t1 = indexKey P t"
  then have "List.find (\<lambda>t'. indexKey P t' = indexKey P t) ts \<noteq> None"
    by (auto simp: find_None_iff)
  then have "map_of (buildSlugIndex P ts) (indexKey P t) \<noteq> None"
    by (simp add: buildSlugIndex_first)
  then show eq: "buildSlugIndex P (ts @ [t]) = buildSlugIndex P ts"
    by (auto simp: buildSlugIndex_snoc buildSlugStep_def)
  then have "expandLoop P g (db \<lparr> teams := Some (ts @ [t]) \<rparr>) = expandLoop P g (db \<lparr> teams := Some ts \<rparr>)"
    by (simp add: expandLoop_def)
  then show "expand P g (db \<lparr> teams := Some (ts @ [t]) \<rparr>) = expand P g (db \<lparr> teams := Some ts \<rparr>)"
    by (simp add: expand_cases)
qed

theorem buildSlugIndex_keeps_first_witness:
  "(\<exists>t1 \<in> set [exFnatic]. indexKey ascii_platform t1 = indexKey ascii_platform exFnaticWebp) \<and>
   map_of (buildSlugIndex ascii_platform [exFnatic, exFnaticWebp]) (Str (lit ''1-fnatic'')) = Some exFnatic \<and>
   buildSlugIndex ascii_platform ([exFnatic] @ [exFnaticWebp]) = buildSlugIndex ascii_platform [exFnatic] \<and>
   expand ascii_platform exFetch (exDb \<lparr> teams := Some ([exFnatic] @ [exFnaticWebp]) \<rparr>) =
     expand ascii_platform exFetch (exDb \<lparr> teams := Some [exFnatic] \<rparr>)"
proof -
  have h: "\<exists>t1 \<in> set [exFnatic]. indexKey ascii_platform t1 = indexKey ascii_platform exFnaticWebp"
    by (simp add: indexKey_exFnatic indexKey_exFnaticWebp)
  have "map_of (buildSlugIndex ascii_platform [exFnatic, exFnaticWebp]) (Str (lit ''1-fnatic'')) = Some exFnatic"
    using buildSlugIndex_keeps_first [of ascii_platform "[exFnatic, exFnaticWebp]" "Str (lit ''1-fnatic'')"]
    by (simp add: indexKey_exFnatic)
  then show ?thesis
    using h buildSlugIndex_keeps_first [of ascii_platform "[exFnatic]" "Str (lit ''1-fnatic'')" exFnaticWebp exFetch exDb]
    by blast
qed



end
